theory Spec2Isabelle
  imports Main "HOL-Library.Word" "HOL-Library.Log_Nat" "HOL-Library.Monad_Syntax"
begin

section \<open>Pixel kernels of my\_grayscale.c, my\_transpose.c and my\_alphablend.c\<close>

text \<open>
  The three programs decode one or two JPEG files into an \<open>image_t\<close> (an array of row
  pointers, each row holding \<open>3 * width\<close> bytes of interleaved RGB), run one kernel
  from the input buffer(s) into a freshly allocated output buffer and encode the result.
  The codec (\<open>read_jpg\<close>, \<open>write_jpg\<close>, libjpeg) is outside the model: a program is
  modelled from the decoded image(s) to the image handed to \<open>write_jpg\<close>.

  Conventions of the embedding:
  \<^item> C \<open>int\<close> is \<open>int\<close>. Every index the kernels compute is below \<open>3 * (width + 4)\<close>
    or \<open>3 * (height + 2)\<close>, and libjpeg bounds both dimensions by 65500, so no index
    expression leaves the range of a 32-bit \<open>int\<close>.
  \<^item> A kernel returns \<open>None\<close> where the C program has no defined behaviour: a read or
    write outside a row (or outside the array of rows), or a conversion of a
    \<open>double\<close> that does not fit \<open>unsigned char\<close>.
  \<^item> \<open>double\<close> is IEEE 754 binary64 with round-to-nearest-even, every operation
    rounded on its own (what gcc emits for x86-64); a value is the rational it denotes.
  \<^item> The iterations of an \<open>omp parallel for\<close> are run in index order. They read only
    the input and the order of the writes is recorded, not relied upon.
\<close>

subsection \<open>binary64 arithmetic on the values the kernels compute\<close>

text \<open>Round to the nearest integer, ties to the even one.\<close>

definition rne :: "rat \<Rightarrow> int" where
  "rne x = (let f = \<lfloor>x\<rfloor>; d = x - of_int f
            in if d < 1 / 2 then f else if 1 / 2 < d then f + 1
               else if even f then f else f + 1)"

text \<open>\<open>ilog2 x\<close> is the binary exponent of a positive \<open>x\<close>: \<open>2 powi ilog2 x \<le> x < 2 powi (ilog2 x + 1)\<close>.\<close>

definition ilog2 :: "rat \<Rightarrow> int" where
  "ilog2 x = (case quotient_of x of (p, q) \<Rightarrow>
                let d = bitlen p - bitlen q in if 2 powi d \<le> x then d else d - 1)"

text \<open>
  The binary64 number nearest to \<open>x\<close>: 53 significant bits, the exponent of the last
  bit not below \<open>-1074\<close> (subnormal numbers). Overflow to infinity is not modelled; the
  kernels stay below 256.
\<close>

definition round64 :: "rat \<Rightarrow> rat" where
  "round64 x = (if x = 0 then 0
     else let e = max (ilog2 \<bar>x\<bar> - 52) (- 1074)
          in of_int (rne (x / 2 powi e)) * 2 powi e)"

definition fmul :: "rat \<Rightarrow> rat \<Rightarrow> rat" where
  "fmul a b = round64 (a * b)"

definition fadd :: "rat \<Rightarrow> rat \<Rightarrow> rat" where
  "fadd a b = round64 (a + b)"

text \<open>
  Modelled from the spec: the sample types \<open>JSAMPLE\<close>, \<open>JSAMPROW\<close> and \<open>JSAMPARRAY\<close> of
  \<open>jpeglib.h\<close> are not in the repository. The specification fixes 8-bit channels: a
  sample is an \<open>unsigned char\<close>, a row a sequence of samples, an array a sequence of rows.
\<close>

type_synonym JSAMPLE = "8 word"
type_synonym JSAMPROW = "JSAMPLE list"
type_synonym JSAMPARRAY = "JSAMPROW list"

text \<open>An \<open>unsigned char\<close> operand of a \<open>double\<close> operation: promoted, then converted exactly.\<close>

definition to_double :: "JSAMPLE \<Rightarrow> rat" where
  "to_double v = of_nat (unat v)"

text \<open>
  The cast \<open>(unsigned char) x\<close> of a \<open>double\<close>: the fraction is dropped (towards zero);
  the behaviour is undefined when what is left is not in \<open>0..255\<close>.
\<close>

definition to_uchar :: "rat \<Rightarrow> JSAMPLE option" where
  "to_uchar x = (let t = (if 0 \<le> x then \<lfloor>x\<rfloor> else \<lceil>x\<rceil>)
                 in if 0 \<le> t \<and> t \<le> 255 then Some (word_of_int t) else None)"

text \<open>The literals \<open>0.299\<close>, \<open>0.587\<close>, \<open>0.114\<close> and \<open>0.5\<close> as the compiler stores them.\<close>

definition d_0299 :: rat where "d_0299 = round64 (299 / 1000)"
definition d_0587 :: rat where "d_0587 = round64 (587 / 1000)"
definition d_0114 :: rat where "d_0114 = round64 (114 / 1000)"
definition d_05 :: rat where "d_05 = round64 (1 / 2)"

text \<open>\<open>(unsigned char)(0.299*r + 0.587*g + 0.114*b)\<close>, my\_grayscale.c lines 106 and 123 to 126.\<close>

definition luma :: "JSAMPLE \<Rightarrow> JSAMPLE \<Rightarrow> JSAMPLE \<Rightarrow> JSAMPLE option" where
  "luma r g b =
     to_uchar (fadd (fadd (fmul d_0299 (to_double r)) (fmul d_0587 (to_double g)))
                    (fmul d_0114 (to_double b)))"

text \<open>\<open>(unsigned char)(0.5*a + 0.5*b)\<close>, my\_alphablend.c lines 106 to 108.\<close>

definition blend :: "JSAMPLE \<Rightarrow> JSAMPLE \<Rightarrow> JSAMPLE option" where
  "blend a b = to_uchar (fadd (fmul d_05 (to_double a)) (fmul d_05 (to_double b)))"

subsection \<open>Buffers\<close>

record image_t =
  width :: int
  height :: int
  buf :: JSAMPARRAY

text \<open>
  The output buffer while a kernel runs, with a ghost record of the byte addresses
  (row, index in the row) written so far, oldest first.
\<close>

record mem =
  rows :: JSAMPARRAY
  writes :: "(int \<times> int) list"

definition in_bounds :: "JSAMPARRAY \<Rightarrow> int \<Rightarrow> int \<Rightarrow> bool" where
  "in_bounds b i k \<longleftrightarrow>
     0 \<le> i \<and> i < int (length b) \<and> 0 \<le> k \<and> k < int (length (b ! nat i))"

text \<open>\<open>b[i][k]\<close> as an rvalue.\<close>

definition load :: "JSAMPARRAY \<Rightarrow> int \<Rightarrow> int \<Rightarrow> JSAMPLE option" where
  "load b i k = (if in_bounds b i k then Some (b ! nat i ! nat k) else None)"

text \<open>\<open>outbuf[i][k] = v\<close>.\<close>

definition store :: "mem \<Rightarrow> int \<Rightarrow> int \<Rightarrow> JSAMPLE \<Rightarrow> mem option" where
  "store m i k v =
     (if in_bounds (rows m) i k
      then Some \<lparr>rows = (rows m)[nat i := (rows m ! nat i)[nat k := v]],
                 writes = writes m @ [(i, k)]\<rparr>
      else None)"

text \<open>
  \<open>for (i = i0; i < n; i += step) s = body i s\<close>, stopping at the first undefined step.
  The step is a positive literal at every call site.
\<close>

function for_loop :: "int \<Rightarrow> int \<Rightarrow> int \<Rightarrow> (int \<Rightarrow> 's \<Rightarrow> 's option) \<Rightarrow> 's \<Rightarrow> 's option" where
  "for_loop i n step body s =
     (if i < n \<and> 0 < step
      then (case body i s of None \<Rightarrow> None | Some s' \<Rightarrow> for_loop (i + step) n step body s')
      else Some s)"
  by pat_completeness auto
termination
  by (relation "measure (\<lambda>(i, n, step, body, s). nat (n - i))") auto

declare for_loop.simps [simp del]

subsection \<open>my\_grayscale.c\<close>

text \<open>The right-hand side of line 106: the luma of the pixel in column \<open>j\<close> of row \<open>i\<close>.\<close>

definition gray_at :: "JSAMPARRAY \<Rightarrow> int \<Rightarrow> int \<Rightarrow> JSAMPLE option" where
  "gray_at inbuf i j = do {
     r \<leftarrow> load inbuf i (j * 3);
     g \<leftarrow> load inbuf i (j * 3 + 1);
     b \<leftarrow> load inbuf i (j * 3 + 2);
     luma r g b
   }"

text \<open>Line 107: \<open>outbuf[i][j*3] = outbuf[i][j*3+1] = outbuf[i][j*3+2] = y\<close>, assigned right to left.\<close>

definition put_gray :: "mem \<Rightarrow> int \<Rightarrow> int \<Rightarrow> JSAMPLE \<Rightarrow> mem option" where
  "put_gray m i j y = do {
     m \<leftarrow> store m i (j * 3 + 2) y;
     m \<leftarrow> store m i (j * 3 + 1) y;
     store m i (j * 3) y
   }"

definition grayscale_serial :: "JSAMPARRAY \<Rightarrow> JSAMPARRAY \<Rightarrow> int \<Rightarrow> int \<Rightarrow> mem option" where
  "grayscale_serial inbuf outbuf w h =
     for_loop 0 h 1 (\<lambda>i.
       for_loop 0 w 1 (\<lambda>j m. do {
         y \<leftarrow> gray_at inbuf i j;
         put_gray m i j y
       }))
     \<lparr>rows = outbuf, writes = []\<rparr>"

definition grayscale_parallel :: "JSAMPARRAY \<Rightarrow> JSAMPARRAY \<Rightarrow> int \<Rightarrow> int \<Rightarrow> mem option" where
  "grayscale_parallel inbuf outbuf w h =
     for_loop 0 h 1 (\<lambda>i.
       for_loop 0 w 4 (\<lambda>j m. do {
         y1 \<leftarrow> gray_at inbuf i j;
         y2 \<leftarrow> gray_at inbuf i (j + 1);
         y3 \<leftarrow> gray_at inbuf i (j + 2);
         y4 \<leftarrow> gray_at inbuf i (j + 3);
         m \<leftarrow> put_gray m i j y1;
         m \<leftarrow> put_gray m i (j + 1) y2;
         m \<leftarrow> put_gray m i (j + 2) y3;
         put_gray m i (j + 3) y4
       }))
     \<lparr>rows = outbuf, writes = []\<rparr>"

subsection \<open>my\_transpose.c\<close>

text \<open>
  Lines 291 to 293 (and 309 to 311, 313 to 315): the three bytes of input pixel \<open>(i, j)\<close>
  go to pixel \<open>(width - 1 - j, i)\<close> of the output.
\<close>

definition move_pixel :: "JSAMPARRAY \<Rightarrow> int \<Rightarrow> int \<Rightarrow> int \<Rightarrow> mem \<Rightarrow> mem option" where
  "move_pixel inbuf w i j m = do {
     v \<leftarrow> load inbuf i (j * 3);
     m \<leftarrow> store m (w - 1 - j) (i * 3) v;
     v \<leftarrow> load inbuf i (j * 3 + 1);
     m \<leftarrow> store m (w - 1 - j) (i * 3 + 1) v;
     v \<leftarrow> load inbuf i (j * 3 + 2);
     store m (w - 1 - j) (i * 3 + 2) v
   }"

definition transpose_serial :: "JSAMPARRAY \<Rightarrow> JSAMPARRAY \<Rightarrow> int \<Rightarrow> int \<Rightarrow> mem option" where
  "transpose_serial inbuf outbuf w h =
     for_loop 0 h 1 (\<lambda>i.
       for_loop 0 w 1 (\<lambda>j m. move_pixel inbuf w i j m))
     \<lparr>rows = outbuf, writes = []\<rparr>"

definition transpose_parallel :: "JSAMPARRAY \<Rightarrow> JSAMPARRAY \<Rightarrow> int \<Rightarrow> int \<Rightarrow> mem option" where
  "transpose_parallel inbuf outbuf w h =
     for_loop 0 h 2 (\<lambda>i.
       for_loop 0 w 1 (\<lambda>j m. do {
         m \<leftarrow> move_pixel inbuf w i j m;
         move_pixel inbuf w (i + 1) j m
       }))
     \<lparr>rows = outbuf, writes = []\<rparr>"

subsection \<open>my\_alphablend.c\<close>

text \<open>One assignment of lines 106 to 108: \<open>outbuf[i][k] = (unsigned char)(0.5*inbuf1[i][k] + 0.5*inbuf2[i][k])\<close>.\<close>

definition blend_byte :: "JSAMPARRAY \<Rightarrow> JSAMPARRAY \<Rightarrow> int \<Rightarrow> int \<Rightarrow> mem \<Rightarrow> mem option" where
  "blend_byte inbuf1 inbuf2 i k m = do {
     a \<leftarrow> load inbuf1 i k;
     b \<leftarrow> load inbuf2 i k;
     v \<leftarrow> blend a b;
     store m i k v
   }"

definition blend_pixel :: "JSAMPARRAY \<Rightarrow> JSAMPARRAY \<Rightarrow> int \<Rightarrow> int \<Rightarrow> mem \<Rightarrow> mem option" where
  "blend_pixel inbuf1 inbuf2 i j m = do {
     m \<leftarrow> blend_byte inbuf1 inbuf2 i (j * 3) m;
     m \<leftarrow> blend_byte inbuf1 inbuf2 i (j * 3 + 1) m;
     blend_byte inbuf1 inbuf2 i (j * 3 + 2) m
   }"

definition alphablend_serial ::
  "JSAMPARRAY \<Rightarrow> JSAMPARRAY \<Rightarrow> JSAMPARRAY \<Rightarrow> int \<Rightarrow> int \<Rightarrow> mem option" where
  "alphablend_serial inbuf1 inbuf2 outbuf w h =
     for_loop 0 h 1 (\<lambda>i.
       for_loop 0 w 1 (\<lambda>j m. blend_pixel inbuf1 inbuf2 i j m))
     \<lparr>rows = outbuf, writes = []\<rparr>"

definition alphablend_parallel ::
  "JSAMPARRAY \<Rightarrow> JSAMPARRAY \<Rightarrow> JSAMPARRAY \<Rightarrow> int \<Rightarrow> int \<Rightarrow> mem option" where
  "alphablend_parallel inbuf1 inbuf2 outbuf w h =
     for_loop 0 h 1 (\<lambda>i.
       for_loop 0 w 4 (\<lambda>j m. do {
         m \<leftarrow> blend_pixel inbuf1 inbuf2 i j m;
         m \<leftarrow> blend_pixel inbuf1 inbuf2 i (j + 1) m;
         m \<leftarrow> blend_pixel inbuf1 inbuf2 i (j + 2) m;
         blend_pixel inbuf1 inbuf2 i (j + 3) m
       }))
     \<lparr>rows = outbuf, writes = []\<rparr>"

subsection \<open>The three \<open>main\<close> functions\<close>

text \<open>
  What a run depends on besides its arguments: whether the program was built with
  OpenMP (\<open>#ifdef _OPENMP\<close>), whether \<open>malloc\<close> succeeds, and the bytes a fresh row holds.
\<close>

record env =
  openmp :: bool
  malloc_ok :: bool
  uninit :: "int \<Rightarrow> int \<Rightarrow> JSAMPLE"

datatype error = IllegalParameters | DimensionMismatchError | AllocationError

text \<open>
  How a run ends: \<open>exit(EXIT_FAILURE)\<close>, no defined behaviour (the kernel left its
  buffers), or \<open>write_jpg\<close> of the image and \<open>return 0\<close>.
\<close>

datatype outcome = Exit_Failure error | Undefined_Behaviour | Written image_t

text \<open>What is printed before \<open>exit\<close>; a failed \<open>malloc\<close> prints nothing.\<close>

fun diagnostic :: "error \<Rightarrow> string" where
  "diagnostic IllegalParameters = ''Illegal parameters''"
| "diagnostic DimensionMismatchError = ''Error''"
| "diagnostic AllocationError = ''''"

text \<open>
  Modelled from the spec: the macro \<open>EXIT_FAILURE\<close> of \<open>stdlib.h\<close> is not in the repository.
  The specification calls it a non-zero failure status; 1 is its value in glibc.
\<close>

definition EXIT_FAILURE :: int where
  "EXIT_FAILURE = 1"

fun exit_status :: "outcome \<Rightarrow> int option" where
  "exit_status (Exit_Failure e) = Some EXIT_FAILURE"
| "exit_status Undefined_Behaviour = None"
| "exit_status (Written img) = Some 0"

text \<open>\<open>new_image\<close>: \<open>h\<close> rows of \<open>3 * w\<close> bytes each, their contents whatever the heap held.\<close>

definition new_image :: "env \<Rightarrow> int \<Rightarrow> int \<Rightarrow> image_t option" where
  "new_image e w h =
     (if malloc_ok e
      then Some \<lparr>width = w, height = h,
                 buf = map (\<lambda>i. map (uninit e i) [0..3 * w - 1]) [0..h - 1]\<rparr>
      else None)"

text \<open>The part of each \<open>main\<close> between time measurement: the kernel chosen at build time.\<close>

definition main_grayscale :: "env \<Rightarrow> int \<Rightarrow> image_t \<Rightarrow> outcome" where
  "main_grayscale e argc in_img =
     (if argc \<noteq> 3 then Exit_Failure IllegalParameters
      else let w = width in_img; h = height in_img in
        case new_image e w h of
          None \<Rightarrow> Exit_Failure AllocationError
        | Some out_img \<Rightarrow>
            (case (if openmp e then grayscale_parallel (buf in_img) (buf out_img) w h
                   else grayscale_serial (buf in_img) (buf out_img) w h) of
               None \<Rightarrow> Undefined_Behaviour
             | Some m \<Rightarrow> Written (out_img\<lparr>buf := rows m\<rparr>)))"

definition main_transpose :: "env \<Rightarrow> int \<Rightarrow> image_t \<Rightarrow> outcome" where
  "main_transpose e argc in_img =
     (if argc \<noteq> 3 then Exit_Failure IllegalParameters
      else let w = width in_img; h = height in_img in
        case new_image e h w of
          None \<Rightarrow> Exit_Failure AllocationError
        | Some out_img \<Rightarrow>
            (case (if openmp e then transpose_parallel (buf in_img) (buf out_img) w h
                   else transpose_serial (buf in_img) (buf out_img) w h) of
               None \<Rightarrow> Undefined_Behaviour
             | Some m \<Rightarrow> Written (out_img\<lparr>buf := rows m\<rparr>)))"

definition main_alphablend :: "env \<Rightarrow> int \<Rightarrow> image_t \<Rightarrow> image_t \<Rightarrow> outcome" where
  "main_alphablend e argc in_img1 in_img2 =
     (if argc \<noteq> 4 then Exit_Failure IllegalParameters
      else let w = width in_img1; h = height in_img1 in
        if w \<noteq> width in_img2 \<or> h \<noteq> height in_img2 then Exit_Failure DimensionMismatchError
        else case new_image e w h of
          None \<Rightarrow> Exit_Failure AllocationError
        | Some out_img \<Rightarrow>
            (case (if openmp e
                   then alphablend_parallel (buf in_img1) (buf in_img2) (buf out_img) w h
                   else alphablend_serial (buf in_img1) (buf in_img2) (buf out_img) w h) of
               None \<Rightarrow> Undefined_Behaviour
             | Some m \<Rightarrow> Written (out_img\<lparr>buf := rows m\<rparr>)))"

subsection \<open>Well-formed buffers and pixel access\<close>

text \<open>A buffer of \<open>h\<close> rows of \<open>w\<close> pixels, as \<open>new_image\<close> lays it out.\<close>

definition wf_buf :: "JSAMPARRAY \<Rightarrow> int \<Rightarrow> int \<Rightarrow> bool" where
  "wf_buf b w h \<longleftrightarrow>
     0 \<le> w \<and> 0 \<le> h \<and> int (length b) = h \<and> list_all (\<lambda>r. int (length r) = 3 * w) b"

definition wf_image :: "image_t \<Rightarrow> bool" where
  "wf_image img \<longleftrightarrow>
     0 < width img \<and> 0 < height img \<and> wf_buf (buf img) (width img) (height img)"

definition byte_at :: "JSAMPARRAY \<Rightarrow> int \<Rightarrow> int \<Rightarrow> JSAMPLE" where
  "byte_at b i k = b ! nat i ! nat k"

definition pixel :: "JSAMPARRAY \<Rightarrow> int \<Rightarrow> int \<Rightarrow> JSAMPLE \<times> JSAMPLE \<times> JSAMPLE" where
  "pixel b i j = (byte_at b i (j * 3), byte_at b i (j * 3 + 1), byte_at b i (j * 3 + 2))"

subsection \<open>Notions used to state what a kernel has written\<close>

text \<open>The byte addresses of rows \<open>i0..i1-1\<close>, indices \<open>k0..k1-1\<close>.\<close>

definition block :: "int \<Rightarrow> int \<Rightarrow> int \<Rightarrow> int \<Rightarrow> (int \<times> int) set" where
  "block i0 i1 k0 k1 = {(i, k). i0 \<le> i \<and> i < i1 \<and> k0 \<le> k \<and> k < k1}"

text \<open>
  The output buffer has its shape, the addresses in \<open>D\<close> are the ones written so far, each
  written once, and each holds the byte \<open>T\<close> prescribes for it.
\<close>

definition filled :: "(int \<Rightarrow> int \<Rightarrow> JSAMPLE) \<Rightarrow> int \<Rightarrow> int \<Rightarrow> (int \<times> int) set \<Rightarrow> mem \<Rightarrow> bool" where
  "filled T w h D m \<longleftrightarrow>
     wf_buf (rows m) w h \<and> distinct (writes m) \<and> set (writes m) = D \<and>
     D \<subseteq> block 0 h 0 (3 * w) \<and> (\<forall>(i, k) \<in> D. byte_at (rows m) i k = T i k)"

text \<open>The byte that belongs at index \<open>k\<close> of row \<open>r\<close> of the transposed image.\<close>

definition transposed :: "JSAMPARRAY \<Rightarrow> int \<Rightarrow> int \<Rightarrow> int \<Rightarrow> JSAMPLE" where
  "transposed inbuf w r k = byte_at inbuf (k div 3) (3 * (w - 1 - r) + k mod 3)"

text \<open>The byte the grayscale kernel leaves at index \<open>k\<close> of row \<open>i\<close>.\<close>

definition gray_target :: "JSAMPARRAY \<Rightarrow> int \<Rightarrow> int \<Rightarrow> JSAMPLE" where
  "gray_target inbuf i k =
     the (luma (byte_at inbuf i (k div 3 * 3)) (byte_at inbuf i (k div 3 * 3 + 1))
               (byte_at inbuf i (k div 3 * 3 + 2)))"

text \<open>The byte the alpha blend kernel leaves at index \<open>k\<close> of row \<open>i\<close>.\<close>

definition blend_target :: "JSAMPARRAY \<Rightarrow> JSAMPARRAY \<Rightarrow> int \<Rightarrow> int \<Rightarrow> JSAMPLE" where
  "blend_target inbuf1 inbuf2 i k =
     word_of_int ((uint (byte_at inbuf1 i k) + uint (byte_at inbuf2 i k)) div 2)"

subsection \<open>The formulas of the specification, in exact arithmetic\<close>

text \<open>\<open>floor(0.299 R + 0.587 G + 0.114 B)\<close> as the specification writes it, over the rationals.\<close>

definition luma_spec :: "JSAMPLE \<Rightarrow> JSAMPLE \<Rightarrow> JSAMPLE \<Rightarrow> int" where
  "luma_spec r g b =
     \<lfloor>299 / 1000 * of_int (uint r) + 587 / 1000 * of_int (uint g) + 114 / 1000 * of_int (uint b) :: rat\<rfloor>"

text \<open>\<open>floor(0.5 in1 + 0.5 in2)\<close> as the specification writes it, over the rationals.\<close>

definition blend_spec :: "JSAMPLE \<Rightarrow> JSAMPLE \<Rightarrow> int" where
  "blend_spec a b = \<lfloor>1 / 2 * of_int (uint a) + 1 / 2 * of_int (uint b) :: rat\<rfloor>"

section \<open>binary64 rounding\<close>

lemma rne_error: "\<bar>of_int (rne x) - x\<bar> \<le> 1 / 2"
proof -
  have "of_int \<lfloor>x\<rfloor> \<le> x" "x < of_int \<lfloor>x\<rfloor> + 1" by linarith+
  then show ?thesis
    by (auto simp: rne_def Let_def abs_le_iff)
qed

lemma rne_of_int: "rne (of_int n) = n"
  by (simp add: rne_def)

lemma ilog2_bounds:
  assumes "0 < x"
  shows "2 powi ilog2 x \<le> x \<and> x < 2 powi (ilog2 x + 1)"
proof -
  obtain p q where pq: "quotient_of x = (p, q)" by force
  have q: "0 < q" using pq by (rule quotient_of_denom_pos)
  have x: "x = of_int p / of_int q" using pq by (rule quotient_of_div)
  have p: "0 < p" using assms q unfolding x by (simp add: zero_less_divide_iff)
  define d where "d = bitlen p - bitlen q"
  have lp: "1 \<le> bitlen p" and lq: "1 \<le> bitlen q"
    using p q bitlen_eq_zero_iff [of p] bitlen_eq_zero_iff [of q] bitlen_nonneg [of p] bitlen_nonneg [of q]
    by linarith+
  define a where "a = nat (bitlen p - 1)"
  define b where "b = nat (bitlen q - 1)"
  have ab: "bitlen p = int a + 1" "bitlen q = int b + 1"
    using lp lq by (simp_all add: a_def b_def)
  have bp: "2 ^ a \<le> p" "p < 2 ^ Suc a"
    using bitlen_bounds [OF p] by (simp_all add: ab nat_add_distrib)
  have bq: "2 ^ b \<le> q" "q < 2 ^ Suc b"
    using bitlen_bounds [OF q] by (simp_all add: ab nat_add_distrib)
  have rp: "(2::rat) ^ a \<le> of_int p" "(of_int p :: rat) < 2 ^ Suc a"
    using bp by (metis of_int_le_iff of_int_numeral of_int_power, metis of_int_less_iff of_int_numeral of_int_power)
  have rq: "(2::rat) ^ b \<le> of_int q" "(of_int q :: rat) < 2 ^ Suc b"
    using bq by (metis of_int_le_iff of_int_numeral of_int_power, metis of_int_less_iff of_int_numeral of_int_power)
  have dd: "d = int a - int b" by (simp add: d_def ab)
  have "x < 2 ^ Suc a / 2 ^ b"
    unfolding x using rp rq p q by (intro frac_less) auto
  also have "\<dots> = 2 powi (d + 1)"
    by (simp add: dd power_int_diff power_int_add)
  finally have up: "x < 2 powi (d + 1)" .
  have "(2::rat) ^ a / 2 ^ Suc b < x"
    unfolding x using rp rq p q by (intro frac_less2) auto
  moreover have "(2::rat) ^ a / 2 ^ Suc b = 2 powi (d - 1)"
    by (simp add: dd power_int_diff)
  ultimately have lo: "2 powi (d - 1) < x" by simp
  show ?thesis
    using up lo by (auto simp: ilog2_def pq d_def Let_def not_le)
qed

lemma ilog2_less:
  assumes "0 < x" "x < 2 powi n"
  shows "ilog2 x < n"
proof (rule ccontr)
  assume "\<not> ilog2 x < n"
  then have "(2::rat) powi n \<le> 2 powi ilog2 x"
    by (intro power_int_increasing) auto
  with ilog2_bounds [OF assms(1)] assms(2) show False by linarith
qed

lemma rne_nonneg: "0 \<le> x \<Longrightarrow> 0 \<le> rne x"
  by (auto simp: rne_def Let_def)

lemma round64_nonneg: "0 \<le> x \<Longrightarrow> 0 \<le> round64 x"
  by (auto simp: round64_def Let_def intro!: mult_nonneg_nonneg rne_nonneg divide_nonneg_nonneg)

lemma round64_exponent:
  assumes "0 < x" "x < 2 powi n"
  shows "max (ilog2 \<bar>x\<bar> - 52) (- 1074) \<le> max (n - 53) (- 1074)"
  using ilog2_less [OF assms] assms(1) by simp

lemma round64_error:
  assumes "0 \<le> x" "x < 2 powi n" "- 1021 \<le> n"
  shows "\<bar>round64 x - x\<bar> \<le> 2 powi (n - 54)"
proof (cases "x = 0")
  case True
  then show ?thesis by (simp add: round64_def)
next
  case False
  with assms have pos: "0 < x" by simp
  define e where "e = max (ilog2 \<bar>x\<bar> - 52) (- 1074)"
  define s :: rat where "s = 2 powi e"
  have e: "e \<le> n - 53" using round64_exponent [OF pos assms(2)] assms(3) by (simp add: e_def)
  have s: "0 < s" by (simp add: s_def)
  have r: "round64 x = of_int (rne (x / s)) * s"
    using False by (simp add: round64_def e_def s_def Let_def)
  have "round64 x - x = (of_int (rne (x / s)) - x / s) * s"
    using s by (simp add: r algebra_simps)
  then have "\<bar>round64 x - x\<bar> = \<bar>of_int (rne (x / s)) - x / s\<bar> * s"
    using s by (simp add: abs_mult)
  also have "\<dots> \<le> 1 / 2 * s"
    using rne_error [of "x / s"] s by (intro mult_right_mono) auto
  also have "\<dots> = 2 powi (e - 1)"
    by (simp add: s_def power_int_diff)
  also have "\<dots> \<le> 2 powi (n - 54)"
    using e by (intro power_int_increasing) auto
  finally show ?thesis .
qed

lemma round64_dyadic:
  assumes "0 \<le> x" "x < 2 powi n" "x = of_int k * 2 powi j" "n - 53 \<le> j" "- 1074 \<le> j"
  shows "round64 x = x"
proof (cases "x = 0")
  case True
  then show ?thesis by (simp add: round64_def)
next
  case False
  have pos: "0 < x" using False assms(1) by linarith
  define e where "e = max (ilog2 \<bar>x\<bar> - 52) (- 1074)"
  have e: "e \<le> j" using round64_exponent [OF pos assms(2)] assms(4,5) by (simp add: e_def)
  have r: "round64 x = of_int (rne (x / 2 powi e)) * 2 powi e"
    using False by (simp add: round64_def e_def Let_def)
  have "x / 2 powi e = of_int k * 2 powi (j - e)"
    by (simp add: assms(3) power_int_diff)
  also have "\<dots> = of_int (k * 2 ^ nat (j - e))"
    using e by (simp add: power_int_def)
  finally have "rne (x / 2 powi e) = k * 2 ^ nat (j - e)"
    by (simp only: rne_of_int)
  then have "round64 x = of_int k * 2 powi (j - e) * 2 powi e"
    using e by (simp add: r power_int_def)
  also have "\<dots> = x"
    by (simp add: assms(3) power_int_diff)
  finally show ?thesis .
qed

lemma d_05_val: "d_05 = 1 / 2"
  by code_simp

lemma to_double_int: "\<exists>k. 0 \<le> k \<and> k \<le> 255 \<and> uint v = k \<and> to_double v = of_int k"
proof -
  have "uint v < 2 ^ 8" using uint_bounded [of v] by simp
  then have "uint v \<le> 255" by simp
  moreover have "to_double v = of_int (uint v)"
    by (simp add: to_double_def)
  ultimately show ?thesis by simp
qed

lemma round64_half_int:
  assumes "0 \<le> k" "k \<le> 510"
  shows "round64 (of_int k / 2) = of_int k / 2"
proof -
  have "(of_int k :: rat) \<le> of_int 510" using assms(2) by (simp only: of_int_le_iff)
  then have b: "(of_int k :: rat) / 2 < 2 powi 8" by simp
  have a: "0 \<le> (of_int k :: rat) / 2" using assms(1) by simp
  have c: "(of_int k :: rat) / 2 = of_int k * 2 powi (- 1)" by simp
  show ?thesis
    by (rule round64_dyadic [OF a b c]) simp_all
qed

lemma blend_val: "blend a b = Some (word_of_int ((uint a + uint b) div 2))"
proof -
  obtain x where x: "0 \<le> x" "x \<le> 255" "uint a = x" "to_double a = of_int x"
    using to_double_int [of a] by blast
  obtain y where y: "0 \<le> y" "y \<le> 255" "uint b = y" "to_double b = of_int y"
    using to_double_int [of b] by blast
  have m1: "fmul d_05 (to_double a) = of_int x / 2"
    using round64_half_int [of x] x by (simp add: fmul_def d_05_val)
  have m2: "fmul d_05 (to_double b) = of_int y / 2"
    using round64_half_int [of y] y by (simp add: fmul_def d_05_val)
  have "fadd (of_int x / 2) (of_int y / 2) = round64 (of_int (x + y) / 2)"
    by (simp add: fadd_def add_divide_distrib)
  also have "\<dots> = of_int (x + y) / 2"
    using x y by (intro round64_half_int) auto
  finally have s: "fadd (of_int x / 2) (of_int y / 2) = of_int (x + y) / of_int 2" by simp
  have fl: "\<lfloor>(of_int (x + y) :: rat) / of_int 2\<rfloor> = (x + y) div 2"
    by (simp only: floor_divide_of_int_eq)
  have nn: "0 \<le> (of_int (x + y) :: rat) / of_int 2"
    using x y by simp
  have "0 \<le> (x + y) div 2" "(x + y) div 2 \<le> 255"
    using x y by auto
  then show ?thesis
    unfolding blend_def m1 m2 s to_uchar_def Let_def fl using nn x(3) y(3) by simp
qed

subsection \<open>The luma expression\<close>

lemma d_0299_val: "d_0299 = 5386305154335113 / 18014398509481984"
  by code_simp

lemma d_0587_val: "d_0587 = 2643612981266481 / 4503599627370496"
  by code_simp

lemma d_0114_val: "d_0114 = 8214565720323785 / 72057594037927936"
  by code_simp

lemma round64_small:
  assumes "0 \<le> x" "x < 256"
  shows "round64 x - x \<le> 1 / 70368744177664 \<and> x - round64 x \<le> 1 / 70368744177664"
proof -
  have "\<bar>round64 x - x\<bar> \<le> 2 powi (- 46)"
    using round64_error [of x 8] assms by simp
  moreover have "(2::rat) powi (- 46) = 1 / 70368744177664"
    by (simp add: power_int_minus_divide)
  ultimately show ?thesis by linarith
qed

lemma luma_sum:
  fixes R G B :: int
  assumes R: "0 \<le> R" "R \<le> 255" and G: "0 \<le> G" "G \<le> 255" and B: "0 \<le> B" "B \<le> 255"
  defines "s \<equiv> fadd (fadd (fmul d_0299 (of_int R)) (fmul d_0587 (of_int G))) (fmul d_0114 (of_int B))"
  shows "0 \<le> s \<and> \<bar>s - of_int (299 * R + 587 * G + 114 * B) / 1000\<bar> \<le> 1 / 8796093022208"
proof -
  define x :: rat where "x = of_int R"
  define y :: rat where "y = of_int G"
  define z :: rat where "z = of_int B"
  have x: "0 \<le> x" "x \<le> 255" using R by (simp_all add: x_def)
  have y: "0 \<le> y" "y \<le> 255" using G by (simp_all add: y_def)
  have z: "0 \<le> z" "z \<le> 255" using B by (simp_all add: z_def)
  define c1 :: rat where "c1 = 5386305154335113 / 18014398509481984 * x"
  define c2 :: rat where "c2 = 2643612981266481 / 4503599627370496 * y"
  define c3 :: rat where "c3 = 8214565720323785 / 72057594037927936 * z"
  define p1 where "p1 = round64 c1"
  define p2 where "p2 = round64 c2"
  define p3 where "p3 = round64 c3"
  define s1 where "s1 = round64 (p1 + p2)"
  have s: "s = round64 (s1 + p3)"
    by (simp add: s_def fadd_def fmul_def d_0299_val d_0587_val d_0114_val
        p1_def p2_def p3_def s1_def x_def y_def z_def c1_def c2_def c3_def)
  have b1: "0 \<le> c1" "c1 < 256" unfolding c1_def using x by linarith+
  have b2: "0 \<le> c2" "c2 < 256" unfolding c2_def using y by linarith+
  have b3: "0 \<le> c3" "c3 < 256" unfolding c3_def using z by linarith+
  note e1 = round64_small [OF b1, folded p1_def]
  note e2 = round64_small [OF b2, folded p2_def]
  note e3 = round64_small [OF b3, folded p3_def]
  have n1: "0 \<le> p1" "0 \<le> p2" "0 \<le> p3"
    unfolding p1_def p2_def p3_def using b1 b2 b3 by (auto intro!: round64_nonneg)
  have b4: "0 \<le> p1 + p2" "p1 + p2 < 256"
    using n1 e1 e2 x y unfolding c1_def c2_def by linarith+
  note e4 = round64_small [OF b4, folded s1_def]
  have n2: "0 \<le> s1"
    unfolding s1_def using b4 by (auto intro!: round64_nonneg)
  have b5: "0 \<le> s1 + p3" "s1 + p3 < 256"
    using n1 n2 e1 e2 e3 e4 x y z unfolding c1_def c2_def c3_def by linarith+
  note e5 = round64_small [OF b5, folded s]
  have n3: "0 \<le> s"
    unfolding s using b5 by (auto intro!: round64_nonneg)
  have d1: "c1 - 299 / 1000 * x \<le> 1 / 70368744177664" "299 / 1000 * x - c1 \<le> 1 / 70368744177664"
    unfolding c1_def using x by linarith+
  have d2: "c2 - 587 / 1000 * y \<le> 1 / 70368744177664" "587 / 1000 * y - c2 \<le> 1 / 70368744177664"
    unfolding c2_def using y by linarith+
  have d3: "c3 - 114 / 1000 * z \<le> 1 / 70368744177664" "114 / 1000 * z - c3 \<le> 1 / 70368744177664"
    unfolding c3_def using z by linarith+
  have t: "(299 * x + 587 * y + 114 * z) / 1000 = 299 / 1000 * x + 587 / 1000 * y + 114 / 1000 * z"
    by simp
  have "s - (299 * x + 587 * y + 114 * z) / 1000 \<le> 1 / 8796093022208"
    unfolding t using e1 e2 e3 e4 e5 d1 d2 d3 by linarith
  moreover have "(299 * x + 587 * y + 114 * z) / 1000 - s \<le> 1 / 8796093022208"
    unfolding t using e1 e2 e3 e4 e5 d1 d2 d3 by linarith
  ultimately have "\<bar>s - (299 * x + 587 * y + 114 * z) / 1000\<bar> \<le> 1 / 8796093022208"
    by linarith
  then show ?thesis
    using n3 by (simp add: x_def y_def z_def)
qed

lemma floor_near:
  fixes s :: rat and N :: int
  assumes "0 \<le> s" "\<bar>s - of_int N / 1000\<bar> \<le> 1 / 8796093022208"
  shows "N div 1000 - 1 \<le> \<lfloor>s\<rfloor> \<and> \<lfloor>s\<rfloor> \<le> N div 1000 \<and> (\<not> 1000 dvd N \<longrightarrow> \<lfloor>s\<rfloor> = N div 1000)"
proof -
  define q where "q = N div 1000"
  define m where "m = N mod 1000"
  have N: "N = 1000 * q + m" and m: "0 \<le> m" "m < 1000"
    by (simp_all add: q_def m_def)
  have rN: "(of_int N :: rat) / 1000 = of_int q + of_int m / 1000"
    by (simp add: N)
  have rm: "(0::rat) \<le> of_int m" "(of_int m :: rat) \<le> 999"
    using m by (simp_all add: of_int_le_numeral_iff [symmetric] del: of_int_le_numeral_iff)
  have lo: "of_int q - 1 \<le> s" and hi: "s < of_int q + 1"
    using assms(2) rm unfolding rN by linarith+
  have a: "q - 1 \<le> \<lfloor>s\<rfloor>" using lo by (simp add: le_floor_iff)
  have b: "\<lfloor>s\<rfloor> \<le> q" using hi by (simp add: floor_le_iff)
  have c: "\<lfloor>s\<rfloor> = q" if "\<not> 1000 dvd N"
  proof -
    have "m \<noteq> 0" using that by (auto simp: m_def dvd_eq_mod_eq_0)
    with m have "1 \<le> m" by simp
    then have "(1::rat) \<le> of_int m" by simp
    then have "of_int q \<le> s" using assms(2) unfolding rN by linarith
    then have "q \<le> \<lfloor>s\<rfloor>" by (simp add: le_floor_iff)
    with b show ?thesis by simp
  qed
  show ?thesis using a b c by (simp add: q_def)
qed

lemma luma_bounds:
  fixes r g b :: JSAMPLE
  defines "N \<equiv> 299 * uint r + 587 * uint g + 114 * uint b"
  shows "\<exists>y. luma r g b = Some y \<and> N div 1000 - 1 \<le> uint y \<and> uint y \<le> N div 1000 \<and>
              (\<not> 1000 dvd N \<longrightarrow> uint y = N div 1000)"
proof -
  obtain R where R: "0 \<le> R" "R \<le> 255" "uint r = R" "to_double r = of_int R"
    using to_double_int [of r] by blast
  obtain G where G: "0 \<le> G" "G \<le> 255" "uint g = G" "to_double g = of_int G"
    using to_double_int [of g] by blast
  obtain B where B: "0 \<le> B" "B \<le> 255" "uint b = B" "to_double b = of_int B"
    using to_double_int [of b] by blast
  define s where "s = fadd (fadd (fmul d_0299 (of_int R)) (fmul d_0587 (of_int G))) (fmul d_0114 (of_int B))"
  have N: "N = 299 * R + 587 * G + 114 * B" by (simp add: N_def R G B)
  have s: "0 \<le> s" "\<bar>s - of_int N / 1000\<bar> \<le> 1 / 8796093022208"
    using luma_sum [OF R(1,2) G(1,2) B(1,2)] by (simp_all add: s_def N)
  note f = floor_near [OF s]
  have f0: "0 \<le> \<lfloor>s\<rfloor>" using s(1) by simp
  have "N \<le> 255000" using R G B unfolding N by linarith
  then have "N div 1000 \<le> 255" by linarith
  with f have f1: "\<lfloor>s\<rfloor> \<le> 255" by linarith
  have l: "luma r g b = Some (word_of_int \<lfloor>s\<rfloor>)"
    using f0 f1 s(1) by (simp add: luma_def R G B s_def [symmetric] to_uchar_def Let_def)
  have u: "uint (word_of_int \<lfloor>s\<rfloor> :: JSAMPLE) = \<lfloor>s\<rfloor>"
    using f0 f1 by (simp add: uint_word_of_int take_bit_eq_mod)
  from f have "N div 1000 - 1 \<le> uint (word_of_int \<lfloor>s\<rfloor> :: JSAMPLE) \<and>
      uint (word_of_int \<lfloor>s\<rfloor> :: JSAMPLE) \<le> N div 1000 \<and>
      (\<not> 1000 dvd N \<longrightarrow> uint (word_of_int \<lfloor>s\<rfloor> :: JSAMPLE) = N div 1000)"
    unfolding u .
  with l show ?thesis by blast
qed

section \<open>Loads, stores and loops\<close>

lemma wf_buf_in_bounds:
  assumes "wf_buf b w h" "0 \<le> i" "i < h" "0 \<le> k" "k < 3 * w"
  shows "in_bounds b i k"
proof -
  have "nat i < length b" using assms by (simp add: wf_buf_def nat_less_iff)
  then have "b ! nat i \<in> set b" by simp
  then have "int (length (b ! nat i)) = 3 * w"
    using assms(1) by (simp add: wf_buf_def list_all_iff)
  then show ?thesis using assms by (simp add: in_bounds_def wf_buf_def)
qed

lemma load_wf:
  assumes "wf_buf b w h" "0 \<le> i" "i < h" "0 \<le> k" "k < 3 * w"
  shows "load b i k = Some (byte_at b i k)"
  using wf_buf_in_bounds [OF assms] by (simp add: load_def byte_at_def)

lemma wf_buf_update:
  assumes "wf_buf b w h" "in_bounds b i k"
  shows "wf_buf (b[nat i := (b ! nat i)[nat k := v]]) w h"
  using assms
  by (auto simp: wf_buf_def in_bounds_def list_all_iff dest!: set_update_subset_insert [THEN subsetD])

lemma byte_at_update:
  assumes "in_bounds b i k" "0 \<le> i'" "0 \<le> k'"
  shows "byte_at (b[nat i := (b ! nat i)[nat k := v]]) i' k' =
           (if i' = i \<and> k' = k then v else byte_at b i' k')"
proof (cases "i' = i")
  case True
  have "nat i < length b" "nat k < length (b ! nat i)"
    using assms(1) by (simp_all add: in_bounds_def nat_less_iff)
  then show ?thesis
    using True assms by (auto simp: byte_at_def nth_list_update in_bounds_def nat_eq_iff)
next
  case False
  then have "nat i' \<noteq> nat i" using assms by (simp add: in_bounds_def nat_eq_iff)
  then show ?thesis using False by (simp add: byte_at_def)
qed

lemma filled_store:
  assumes "filled T w h D m" "0 \<le> i" "i < h" "0 \<le> k" "k < 3 * w" "(i, k) \<notin> D" "v = T i k"
  shows "\<exists>m'. store m i k v = Some m' \<and> filled T w h (insert (i, k) D) m'"
proof -
  have wf: "wf_buf (rows m) w h" using assms(1) by (simp add: filled_def)
  have ib: "in_bounds (rows m) i k" using wf assms(2-5) by (rule wf_buf_in_bounds)
  define m' where "m' = \<lparr>rows = (rows m)[nat i := (rows m ! nat i)[nat k := v]],
                          writes = writes m @ [(i, k)]\<rparr>"
  have st: "store m i k v = Some m'" using ib by (simp add: store_def m'_def)
  have wf': "wf_buf (rows m') w h" using wf_buf_update [OF wf ib] by (simp add: m'_def)
  have D: "D \<subseteq> block 0 h 0 (3 * w)" "set (writes m) = D" "distinct (writes m)"
    using assms(1) by (simp_all add: filled_def)
  have bytes: "byte_at (rows m') i' k' = T i' k'" if "(i', k') \<in> insert (i, k) D" for i' k'
  proof -
    have nn: "0 \<le> i'" "0 \<le> k'" using that D(1) assms(2,4) by (auto simp: block_def)
    have old: "(i', k') \<in> D \<Longrightarrow> byte_at (rows m) i' k' = T i' k'"
      using assms(1) by (auto simp: filled_def)
    show ?thesis
      using that old assms(7) by (auto simp: m'_def byte_at_update [OF ib nn])
  qed
  have "filled T w h (insert (i, k) D) m'"
    unfolding filled_def using wf' D assms(2-6) bytes
    by (auto simp: m'_def block_def)
  with st show ?thesis by blast
qed

lemma for_loop_rule:
  assumes "0 < step" "i \<le> n" "step dvd n - i" "I i s"
    and "\<And>k t. i \<le> k \<Longrightarrow> k < n \<Longrightarrow> step dvd n - k \<Longrightarrow> I k t \<Longrightarrow> \<exists>t'. body k t = Some t' \<and> I (k + step) t'"
  shows "\<exists>t. for_loop i n step body s = Some t \<and> I n t"
  using assms(2-)
proof (induction "nat (n - i)" arbitrary: i s rule: less_induct)
  case less
  show ?case
  proof (cases "i < n")
    case False
    with less.prems show ?thesis by (simp add: for_loop.simps)
  next
    case True
    obtain t' where t': "body i s = Some t'" "I (i + step) t'"
      using less.prems(4) [OF _ True less.prems(2,3)] by auto
    have d: "step dvd n - (i + step)"
      using less.prems(2) by (metis diff_diff_eq dvd_diff dvd_refl)
    have le: "i + step \<le> n"
    proof -
      obtain c where c: "n - i = step * c" using less.prems(2) by (auto simp: dvd_def)
      have "0 < step * c" using True c by linarith
      then have "0 < c" using assms(1) by (simp add: zero_less_mult_iff)
      then have "step * 1 \<le> step * c" using assms(1) by (intro mult_left_mono) auto
      with c show ?thesis by simp
    qed
    have "\<exists>t. for_loop (i + step) n step body t' = Some t \<and> I n t"
    proof (rule less.hyps [OF _ le d t'(2)])
      show "nat (n - (i + step)) < nat (n - i)" using True assms(1) by simp
      show "\<exists>t'. body k t = Some t' \<and> I (k + step) t'"
        if "i + step \<le> k" "k < n" "step dvd n - k" "I k t" for k t
        using less.prems(4) [of k t] that assms(1) by simp
    qed
    then show ?thesis
      using True assms(1) t'(1) by (subst for_loop.simps) simp
  qed
qed

section \<open>The transpose kernel\<close>

lemma filled_init:
  assumes "wf_buf outbuf w h"
  shows "filled T w h (block i0 i1 0 0) \<lparr>rows = outbuf, writes = []\<rparr>"
  using assms by (auto simp: filled_def block_def)

lemma move_pixel_filled:
  assumes inb: "wf_buf inbuf w h"
    and m: "filled (transposed inbuf w) h w D m"
    and i: "0 \<le> i" "i < h" and j: "0 \<le> j" "j < w"
    and new: "(w - 1 - j, i * 3) \<notin> D" "(w - 1 - j, i * 3 + 1) \<notin> D" "(w - 1 - j, i * 3 + 2) \<notin> D"
  shows "\<exists>m'. move_pixel inbuf w i j m = Some m' \<and>
           filled (transposed inbuf w) h w
             (insert (w - 1 - j, i * 3 + 2) (insert (w - 1 - j, i * 3 + 1) (insert (w - 1 - j, i * 3) D))) m'"
proof -
  have l0: "load inbuf i (j * 3) = Some (byte_at inbuf i (j * 3))"
    using inb i j by (intro load_wf) auto
  have l1: "load inbuf i (j * 3 + 1) = Some (byte_at inbuf i (j * 3 + 1))"
    using inb i j by (intro load_wf) auto
  have l2: "load inbuf i (j * 3 + 2) = Some (byte_at inbuf i (j * 3 + 2))"
    using inb i j by (intro load_wf) auto
  have t0: "byte_at inbuf i (j * 3) = transposed inbuf w (w - 1 - j) (i * 3)"
    by (simp add: transposed_def mult.commute)
  have t1: "byte_at inbuf i (j * 3 + 1) = transposed inbuf w (w - 1 - j) (i * 3 + 1)"
    by (simp add: transposed_def mult.commute)
  have t2: "byte_at inbuf i (j * 3 + 2) = transposed inbuf w (w - 1 - j) (i * 3 + 2)"
    by (simp add: transposed_def mult.commute)
  obtain m1 where m1: "store m (w - 1 - j) (i * 3) (byte_at inbuf i (j * 3)) = Some m1"
      "filled (transposed inbuf w) h w (insert (w - 1 - j, i * 3) D) m1"
    using filled_store [OF m _ _ _ _ new(1) t0] i j by auto
  obtain m2 where m2: "store m1 (w - 1 - j) (i * 3 + 1) (byte_at inbuf i (j * 3 + 1)) = Some m2"
      "filled (transposed inbuf w) h w (insert (w - 1 - j, i * 3 + 1) (insert (w - 1 - j, i * 3) D)) m2"
    using filled_store [OF m1(2) _ _ _ _ _ t1] i j new(2) by auto
  obtain m3 where m3: "store m2 (w - 1 - j) (i * 3 + 2) (byte_at inbuf i (j * 3 + 2)) = Some m3"
      "filled (transposed inbuf w) h w
         (insert (w - 1 - j, i * 3 + 2) (insert (w - 1 - j, i * 3 + 1) (insert (w - 1 - j, i * 3) D))) m3"
    using filled_store [OF m2(2) _ _ _ _ _ t2] i j new(3) by auto
  show ?thesis
    by (simp add: move_pixel_def l0 l1 l2 m1 m2 m3)
qed

lemma transpose_row:
  assumes inb: "wf_buf inbuf w h"
    and m: "filled (transposed inbuf w) h w (block 0 w 0 (3 * i)) m"
    and i: "0 \<le> i" "i < h"
  shows "\<exists>m'. for_loop 0 w 1 (\<lambda>j m. move_pixel inbuf w i j m) m = Some m' \<and>
           filled (transposed inbuf w) h w (block 0 w 0 (3 * (i + 1))) m'"
proof -
  define I where "I j m \<longleftrightarrow>
      filled (transposed inbuf w) h w (block 0 w 0 (3 * i) \<union> block (w - j) w (3 * i) (3 * i + 3)) m" for j m
  have w: "0 \<le> w" using inb by (simp add: wf_buf_def)
  have "block 0 w 0 (3 * i) \<union> block (w - 0) w (3 * i) (3 * i + 3) = block 0 w 0 (3 * i)"
    by (auto simp: block_def)
  then have start: "I 0 m" using m by (simp add: I_def)
  have step: "\<exists>t'. move_pixel inbuf w i j t = Some t' \<and> I (j + 1) t'"
    if "0 \<le> j" "j < w" "I j t" for j t
  proof -
    let ?D = "block 0 w 0 (3 * i) \<union> block (w - j) w (3 * i) (3 * i + 3)"
    have "\<exists>m'. move_pixel inbuf w i j t = Some m' \<and>
           filled (transposed inbuf w) h w
             (insert (w - 1 - j, i * 3 + 2) (insert (w - 1 - j, i * 3 + 1) (insert (w - 1 - j, i * 3) ?D))) m'"
      using that(3) unfolding I_def
      by (rule move_pixel_filled [OF inb _ i that(1,2)]) (auto simp: block_def)
    moreover have "insert (w - 1 - j, i * 3 + 2) (insert (w - 1 - j, i * 3 + 1) (insert (w - 1 - j, i * 3) ?D))
        = block 0 w 0 (3 * i) \<union> block (w - (j + 1)) w (3 * i) (3 * i + 3)"
      using that(1,2) i by (auto simp: block_def)
    ultimately show ?thesis by (simp add: I_def)
  qed
  have "\<exists>t. for_loop 0 w 1 (\<lambda>j m. move_pixel inbuf w i j m) m = Some t \<and> I w t"
    by (rule for_loop_rule [where I = I, OF _ w _ start]) (use step in auto)
  moreover have "block 0 w 0 (3 * i) \<union> block (w - w) w (3 * i) (3 * i + 3) = block 0 w 0 (3 * (i + 1))"
    using i by (auto simp: block_def)
  ultimately show ?thesis by (simp add: I_def)
qed

lemma transpose_serial_filled:
  assumes inb: "wf_buf inbuf w h" and outb: "wf_buf outbuf h w"
  shows "\<exists>m. transpose_serial inbuf outbuf w h = Some m \<and>
           filled (transposed inbuf w) h w (block 0 w 0 (3 * h)) m"
proof -
  define I where "I i m \<longleftrightarrow> filled (transposed inbuf w) h w (block 0 w 0 (3 * i)) m" for i m
  have h: "0 \<le> h" using inb by (simp add: wf_buf_def)
  have start: "I 0 \<lparr>rows = outbuf, writes = []\<rparr>"
    unfolding I_def using filled_init [OF outb] by simp
  have step: "\<exists>t'. for_loop 0 w 1 (\<lambda>j m. move_pixel inbuf w i j m) t = Some t' \<and> I (i + 1) t'"
    if "0 \<le> i" "i < h" "I i t" for i t
    using transpose_row [OF inb _ that(1,2)] that(3) by (simp add: I_def)
  have "\<exists>t. for_loop 0 h 1 (\<lambda>i. for_loop 0 w 1 (\<lambda>j m. move_pixel inbuf w i j m))
               \<lparr>rows = outbuf, writes = []\<rparr> = Some t \<and> I h t"
    by (rule for_loop_rule [where I = I, OF _ h _ start]) (use step in auto)
  then show ?thesis by (simp add: transpose_serial_def I_def)
qed

lemma filled_byte:
  assumes "filled T w h (block 0 h 0 (3 * w)) m" "0 \<le> i" "i < h" "0 \<le> k" "k < 3 * w"
  shows "byte_at (rows m) i k = T i k"
  using assms by (auto simp: filled_def block_def)

lemma wf_buf_eqI:
  assumes a: "wf_buf a w h" and b: "wf_buf b w h"
    and eq: "\<And>i j. 0 \<le> i \<Longrightarrow> i < h \<Longrightarrow> 0 \<le> j \<Longrightarrow> j < w \<Longrightarrow> pixel a i j = pixel b i j"
  shows "a = b"
proof (rule nth_equalityI)
  show len: "length a = length b" using a b by (simp add: wf_buf_def)
  fix r assume r: "r < length a"
  have ra: "a ! r \<in> set a" and rb: "b ! r \<in> set b" using r len by simp_all
  have la: "int (length (a ! r)) = 3 * w" using a ra by (simp add: wf_buf_def list_all_iff)
  have lb: "int (length (b ! r)) = 3 * w" using b rb by (simp add: wf_buf_def list_all_iff)
  have rh: "int r < h" using r a by (simp add: wf_buf_def)
  show "a ! r = b ! r"
  proof (rule nth_equalityI)
    show "length (a ! r) = length (b ! r)" using la lb by simp
    fix k assume k: "k < length (a ! r)"
    define j where "j = int k div 3"
    have j: "0 \<le> j" "j < w" using k la by (simp_all add: j_def)
    have p: "pixel a (int r) j = pixel b (int r) j" using rh j by (intro eq) simp_all
    have "int k mod 3 = 0 \<or> int k mod 3 = 1 \<or> int k mod 3 = 2" by presburger
    moreover have "int k = j * 3 + int k mod 3" by (simp add: j_def)
    ultimately have "int k = j * 3 \<or> int k = j * 3 + 1 \<or> int k = j * 3 + 2" by presburger
    then have "byte_at a (int r) (int k) = byte_at b (int r) (int k)"
      using p by (auto simp: pixel_def)
    then show "a ! r ! k = b ! r ! k" by (simp add: byte_at_def)
  qed
qed

lemma transpose_serial_pixels:
  assumes inb: "wf_buf inbuf w h" and outb: "wf_buf outbuf h w"
  shows "\<exists>m. transpose_serial inbuf outbuf w h = Some m \<and> wf_buf (rows m) h w \<and>
           distinct (writes m) \<and> set (writes m) = block 0 w 0 (3 * h) \<and>
           (\<forall>i j. 0 \<le> i \<and> i < h \<and> 0 \<le> j \<and> j < w \<longrightarrow>
              pixel (rows m) (w - 1 - j) i = pixel inbuf i j)"
proof -
  obtain m where m: "transpose_serial inbuf outbuf w h = Some m"
      "filled (transposed inbuf w) h w (block 0 w 0 (3 * h)) m"
    using transpose_serial_filled [OF inb outb] by blast
  have px: "pixel (rows m) (w - 1 - j) i = pixel inbuf i j"
    if "0 \<le> i" "i < h" "0 \<le> j" "j < w" for i j
  proof -
    have b: "byte_at (rows m) (w - 1 - j) (i * 3 + c) = transposed inbuf w (w - 1 - j) (i * 3 + c)"
      if "c = 0 \<or> c = 1 \<or> c = 2" for c
      using that \<open>0 \<le> i\<close> \<open>i < h\<close> \<open>0 \<le> j\<close> \<open>j < w\<close> by (intro filled_byte [OF m(2)]) auto
    show ?thesis
      using b [of 0] b [of 1] b [of 2]
      by (simp add: pixel_def transposed_def mult.commute)
  qed
  show ?thesis
    using m px by (auto simp: filled_def)
qed

lemma new_image_wf:
  assumes "malloc_ok e" "0 \<le> w" "0 \<le> h"
  shows "\<exists>img. new_image e w h = Some img \<and> width img = w \<and> height img = h \<and>
           wf_buf (buf img) w h"
  using assms by (simp add: new_image_def wf_buf_def list_all_iff)

lemma main_transpose_serial:
  assumes img: "wf_image img" and e: "malloc_ok e" "\<not> openmp e"
  shows "\<exists>out. main_transpose e 3 img = Written out \<and>
           width out = height img \<and> height out = width img \<and> wf_image out \<and>
           (\<forall>i j. 0 \<le> i \<and> i < height img \<and> 0 \<le> j \<and> j < width img \<longrightarrow>
              pixel (buf out) (width img - 1 - j) i = pixel (buf img) i j)"
proof -
  define w where "w = width img"
  define h where "h = height img"
  have wh: "0 < w" "0 < h" and inb: "wf_buf (buf img) w h"
    using img by (simp_all add: wf_image_def w_def h_def)
  obtain o1 where o1: "new_image e h w = Some o1" "width o1 = h" "height o1 = w" "wf_buf (buf o1) h w"
    using new_image_wf [OF e(1), of h w] wh by auto
  obtain m where m: "transpose_serial (buf img) (buf o1) w h = Some m" "wf_buf (rows m) h w"
      "\<forall>i j. 0 \<le> i \<and> i < h \<and> 0 \<le> j \<and> j < w \<longrightarrow> pixel (rows m) (w - 1 - j) i = pixel (buf img) i j"
    using transpose_serial_pixels [OF inb o1(4)] by blast
  have "main_transpose e 3 img = Written (o1\<lparr>buf := rows m\<rparr>)"
    using e(2) by (simp add: main_transpose_def w_def [symmetric] h_def [symmetric] o1(1) m(1))
  moreover have "wf_image (o1\<lparr>buf := rows m\<rparr>)"
    using wh m(2) by (simp add: wf_image_def o1)
  ultimately show ?thesis
    using m(3) by (simp add: o1 w_def h_def)
qed

lemma distinct_count_list_one: "distinct xs \<Longrightarrow> x \<in> set xs \<Longrightarrow> count_list xs x = 1"
  by (induction xs) auto

lemma block_card: "0 \<le> a \<Longrightarrow> 0 \<le> b \<Longrightarrow> card (block 0 a 0 b) = nat (a * b)"
proof -
  assume ab: "0 \<le> a" "0 \<le> b"
  have "block 0 a 0 b = {0..<a} \<times> {0..<b}" by (auto simp: block_def)
  then show ?thesis using ab by (simp add: nat_mult_distrib)
qed

lemma transpose_destination_bij:
  fixes w h :: int
  shows "bij_betw (\<lambda>(i, j). (w - 1 - j, i)) ({0..<h} \<times> {0..<w}) ({0..<w} \<times> {0..<h})"
  by (rule bij_betw_byWitness [where f' = "\<lambda>(r, c). (c, w - 1 - r)"]) auto

lemma transpose_serial_once:
  assumes "wf_buf inbuf w h" "wf_buf outbuf h w"
  shows "\<exists>m. transpose_serial inbuf outbuf w h = Some m \<and>
       length (writes m) = nat (3 * w * h) \<and>
       (\<forall>r c ch. 0 \<le> r \<and> r < w \<and> 0 \<le> c \<and> c < h \<and> 0 \<le> ch \<and> ch < 3 \<longrightarrow>
          count_list (writes m) (r, c * 3 + ch) = 1)"
proof -
  obtain m where m: "transpose_serial inbuf outbuf w h = Some m" "distinct (writes m)"
      "set (writes m) = block 0 w 0 (3 * h)"
    using transpose_serial_pixels [OF assms] by blast
  have wh: "0 \<le> w" "0 \<le> h" using assms(1) by (simp_all add: wf_buf_def)
  have "length (writes m) = card (set (writes m))"
    using m(2) by (simp add: distinct_card)
  also have "\<dots> = nat (w * (3 * h))"
    unfolding m(3) using wh by (intro block_card) auto
  finally have len: "length (writes m) = nat (3 * w * h)" by (simp add: mult.assoc mult.left_commute)
  have "count_list (writes m) (r, c * 3 + ch) = 1"
    if "0 \<le> r" "r < w" "0 \<le> c" "c < h" "0 \<le> ch" "ch < 3" for r c ch
  proof -
    have "(r, c * 3 + ch) \<in> set (writes m)"
      unfolding m(3) using that by (auto simp: block_def)
    then show ?thesis using m(2) by (intro distinct_count_list_one)
  qed
  with m(1) len show ?thesis by blast
qed

lemma image_t_eqI:
  fixes a b :: image_t
  assumes "width a = width b" "height a = height b" "buf a = buf b"
  shows "a = b"
  using assms by simp

lemma main_transpose_four:
  assumes img: "wf_image img"
    and e: "malloc_ok e1" "\<not> openmp e1" "malloc_ok e2" "\<not> openmp e2"
           "malloc_ok e3" "\<not> openmp e3" "malloc_ok e4" "\<not> openmp e4"
  shows "\<exists>a b c d. main_transpose e1 3 img = Written a \<and> main_transpose e2 3 a = Written b \<and>
           main_transpose e3 3 b = Written c \<and> main_transpose e4 3 c = Written d \<and>
           width b = width img \<and> height b = height img \<and> d = img"
proof -
  define w where "w = width img"
  define h where "h = height img"
  obtain a where a: "main_transpose e1 3 img = Written a" "width a = h" "height a = w" "wf_image a"
      "\<And>i j. 0 \<le> i \<Longrightarrow> i < h \<Longrightarrow> 0 \<le> j \<Longrightarrow> j < w \<Longrightarrow>
         pixel (buf a) (w - 1 - j) i = pixel (buf img) i j"
    using main_transpose_serial [OF img e(1,2)] unfolding w_def h_def by blast
  obtain b where b: "main_transpose e2 3 a = Written b" "width b = w" "height b = h" "wf_image b"
      "\<And>i j. 0 \<le> i \<Longrightarrow> i < w \<Longrightarrow> 0 \<le> j \<Longrightarrow> j < h \<Longrightarrow>
         pixel (buf b) (h - 1 - j) i = pixel (buf a) i j"
    using main_transpose_serial [OF a(4) e(3,4)] unfolding a(2,3) by blast
  obtain c where c: "main_transpose e3 3 b = Written c" "width c = h" "height c = w" "wf_image c"
      "\<And>i j. 0 \<le> i \<Longrightarrow> i < h \<Longrightarrow> 0 \<le> j \<Longrightarrow> j < w \<Longrightarrow>
         pixel (buf c) (w - 1 - j) i = pixel (buf b) i j"
    using main_transpose_serial [OF b(4) e(5,6)] unfolding b(2,3) by blast
  obtain d where d: "main_transpose e4 3 c = Written d" "width d = w" "height d = h" "wf_image d"
      "\<And>i j. 0 \<le> i \<Longrightarrow> i < w \<Longrightarrow> 0 \<le> j \<Longrightarrow> j < h \<Longrightarrow>
         pixel (buf d) (h - 1 - j) i = pixel (buf c) i j"
    using main_transpose_serial [OF c(4) e(7,8)] unfolding c(2,3) by blast
  have px: "pixel (buf d) i j = pixel (buf img) i j" if ij: "0 \<le> i" "i < h" "0 \<le> j" "j < w" for i j
  proof -
    have "pixel (buf d) (h - 1 - (h - 1 - i)) j = pixel (buf c) j (h - 1 - i)"
      using ij by (intro d(5)) auto
    also have "\<dots> = pixel (buf c) (w - 1 - (w - 1 - j)) (h - 1 - i)" by simp
    also have "\<dots> = pixel (buf b) (h - 1 - i) (w - 1 - j)"
      using ij by (intro c(5)) auto
    also have "\<dots> = pixel (buf a) (w - 1 - j) i"
      using ij by (intro b(5)) auto
    also have "\<dots> = pixel (buf img) i j"
      using ij by (intro a(5)) auto
    finally show ?thesis by simp
  qed
  have "buf d = buf img"
  proof (rule wf_buf_eqI [where w = w and h = h])
    show "wf_buf (buf d) w h" using d(4) by (simp add: wf_image_def d(2,3))
    show "wf_buf (buf img) w h" using img by (simp add: wf_image_def w_def h_def)
  qed (rule px)
  then have "d = img" using d(2,3) by (intro image_t_eqI) (simp_all add: w_def h_def)
  with a(1) b(1,2,3) c(1) d(1) show ?thesis unfolding w_def h_def by blast
qed

section \<open>The grayscale and alpha blend kernels\<close>

lemma pointwise_row:
  assumes px: "\<And>j D m. 0 \<le> j \<Longrightarrow> j < w \<Longrightarrow> filled T w h D m \<Longrightarrow>
        (i, j * 3) \<notin> D \<Longrightarrow> (i, j * 3 + 1) \<notin> D \<Longrightarrow> (i, j * 3 + 2) \<notin> D \<Longrightarrow>
        \<exists>m'. body j m = Some m' \<and>
          filled T w h (insert (i, j * 3) (insert (i, j * 3 + 1) (insert (i, j * 3 + 2) D))) m'"
    and m: "filled T w h (block 0 i 0 (3 * w)) m"
    and w: "0 \<le> w" and i: "0 \<le> i"
  shows "\<exists>m'. for_loop 0 w 1 body m = Some m' \<and> filled T w h (block 0 (i + 1) 0 (3 * w)) m'"
proof -
  define I where "I j m \<longleftrightarrow> filled T w h (block 0 i 0 (3 * w) \<union> block i (i + 1) 0 (3 * j)) m" for j m
  have "block 0 i 0 (3 * w) \<union> block i (i + 1) 0 (3 * 0) = block 0 i 0 (3 * w)"
    by (auto simp: block_def)
  then have start: "I 0 m" using m by (simp add: I_def)
  have step: "\<exists>t'. body j t = Some t' \<and> I (j + 1) t'" if "0 \<le> j" "j < w" "I j t" for j t
  proof -
    let ?D = "block 0 i 0 (3 * w) \<union> block i (i + 1) 0 (3 * j)"
    have "\<exists>m'. body j t = Some m' \<and>
          filled T w h (insert (i, j * 3) (insert (i, j * 3 + 1) (insert (i, j * 3 + 2) ?D))) m'"
      using that(3) unfolding I_def
      by (rule px [OF that(1,2)]) (auto simp: block_def)
    moreover have "insert (i, j * 3) (insert (i, j * 3 + 1) (insert (i, j * 3 + 2) ?D))
        = block 0 i 0 (3 * w) \<union> block i (i + 1) 0 (3 * (j + 1))"
      using that(1,2) i by (auto simp: block_def)
    ultimately show ?thesis by (simp add: I_def)
  qed
  have "\<exists>t. for_loop 0 w 1 body m = Some t \<and> I w t"
    by (rule for_loop_rule [where I = I, OF _ w _ start]) (use step in auto)
  moreover have "block 0 i 0 (3 * w) \<union> block i (i + 1) 0 (3 * w) = block 0 (i + 1) 0 (3 * w)"
    using i by (auto simp: block_def)
  ultimately show ?thesis by (simp add: I_def)
qed

lemma pointwise_loops:
  assumes px: "\<And>i j D m. 0 \<le> i \<Longrightarrow> i < h \<Longrightarrow> 0 \<le> j \<Longrightarrow> j < w \<Longrightarrow> filled T w h D m \<Longrightarrow>
        (i, j * 3) \<notin> D \<Longrightarrow> (i, j * 3 + 1) \<notin> D \<Longrightarrow> (i, j * 3 + 2) \<notin> D \<Longrightarrow>
        \<exists>m'. body i j m = Some m' \<and>
          filled T w h (insert (i, j * 3) (insert (i, j * 3 + 1) (insert (i, j * 3 + 2) D))) m'"
    and outb: "wf_buf outbuf w h"
  shows "\<exists>m. for_loop 0 h 1 (\<lambda>i. for_loop 0 w 1 (body i)) \<lparr>rows = outbuf, writes = []\<rparr> = Some m \<and>
           filled T w h (block 0 h 0 (3 * w)) m"
proof -
  define I where "I i m \<longleftrightarrow> filled T w h (block 0 i 0 (3 * w)) m" for i m
  have wh: "0 \<le> w" "0 \<le> h" using outb by (simp_all add: wf_buf_def)
  have "block 0 0 0 (3 * w) = block 0 0 0 0" by (auto simp: block_def)
  then have start: "I 0 \<lparr>rows = outbuf, writes = []\<rparr>"
    unfolding I_def using filled_init [OF outb, of T 0 0] by simp
  have step: "\<exists>t'. for_loop 0 w 1 (body i) t = Some t' \<and> I (i + 1) t'"
    if "0 \<le> i" "i < h" "I i t" for i t
    unfolding I_def
    by (rule pointwise_row [OF px [OF that(1,2)] that(3) [unfolded I_def] wh(1) that(1)])
  show ?thesis
    unfolding I_def [symmetric]
    by (rule for_loop_rule [where I = I, OF _ wh(2) _ start]) (use step in auto)
qed

lemma luma_Some: "\<exists>y. luma r g b = Some y"
  using luma_bounds [of r g b] by blast

lemma gray_at_wf:
  assumes "wf_buf inbuf w h" "0 \<le> i" "i < h" "0 \<le> j" "j < w"
  shows "gray_at inbuf i j =
           luma (byte_at inbuf i (j * 3)) (byte_at inbuf i (j * 3 + 1)) (byte_at inbuf i (j * 3 + 2))"
proof -
  have "load inbuf i (j * 3) = Some (byte_at inbuf i (j * 3))"
    "load inbuf i (j * 3 + 1) = Some (byte_at inbuf i (j * 3 + 1))"
    "load inbuf i (j * 3 + 2) = Some (byte_at inbuf i (j * 3 + 2))"
    using assms by (auto intro!: load_wf)
  then show ?thesis by (simp add: gray_at_def)
qed

lemma gray_at_target:
  assumes "wf_buf inbuf w h" "0 \<le> i" "i < h" "0 \<le> j" "j < w"
  shows "gray_at inbuf i j = Some (gray_target inbuf i (j * 3)) \<and>
         gray_target inbuf i (j * 3 + 1) = gray_target inbuf i (j * 3) \<and>
         gray_target inbuf i (j * 3 + 2) = gray_target inbuf i (j * 3)"
proof -
  obtain y where y: "luma (byte_at inbuf i (j * 3)) (byte_at inbuf i (j * 3 + 1))
      (byte_at inbuf i (j * 3 + 2)) = Some y"
    using luma_Some by blast
  have d: "(j * 3 + 1) div 3 = j" "(j * 3 + 2) div 3 = j" by simp_all
  show ?thesis
    unfolding gray_at_wf [OF assms] by (simp add: gray_target_def d y)
qed

lemma put_gray_filled:
  assumes m: "filled T w h D m"
    and i: "0 \<le> i" "i < h" and j: "0 \<le> j" "j < w"
    and new: "(i, j * 3) \<notin> D" "(i, j * 3 + 1) \<notin> D" "(i, j * 3 + 2) \<notin> D"
    and y: "y = T i (j * 3)" "y = T i (j * 3 + 1)" "y = T i (j * 3 + 2)"
  shows "\<exists>m'. put_gray m i j y = Some m' \<and>
           filled T w h (insert (i, j * 3) (insert (i, j * 3 + 1) (insert (i, j * 3 + 2) D))) m'"
proof -
  obtain m1 where m1: "store m i (j * 3 + 2) y = Some m1"
      "filled T w h (insert (i, j * 3 + 2) D) m1"
    using filled_store [OF m i(1,2) _ _ new(3) y(3)] j by auto
  obtain m2 where m2: "store m1 i (j * 3 + 1) y = Some m2"
      "filled T w h (insert (i, j * 3 + 1) (insert (i, j * 3 + 2) D)) m2"
    using filled_store [OF m1(2) i(1,2) _ _ _ y(2)] j new(2) by auto
  obtain m3 where m3: "store m2 i (j * 3) y = Some m3"
      "filled T w h (insert (i, j * 3) (insert (i, j * 3 + 1) (insert (i, j * 3 + 2) D))) m3"
    using filled_store [OF m2(2) i(1,2) _ _ _ y(1)] j new(1) by auto
  show ?thesis by (simp add: put_gray_def m1 m2 m3)
qed

lemma gray_pixel_filled:
  assumes inb: "wf_buf inbuf w h"
    and i: "0 \<le> i" "i < h" and j: "0 \<le> j" "j < w"
    and m: "filled (gray_target inbuf) w h D m"
    and new: "(i, j * 3) \<notin> D" "(i, j * 3 + 1) \<notin> D" "(i, j * 3 + 2) \<notin> D"
  shows "\<exists>m'. do { y \<leftarrow> gray_at inbuf i j; put_gray m i j y } = Some m' \<and>
           filled (gray_target inbuf) w h
             (insert (i, j * 3) (insert (i, j * 3 + 1) (insert (i, j * 3 + 2) D))) m'"
proof -
  note g = gray_at_target [OF inb i j]
  have "\<exists>m'. put_gray m i j (gray_target inbuf i (j * 3)) = Some m' \<and>
           filled (gray_target inbuf) w h
             (insert (i, j * 3) (insert (i, j * 3 + 1) (insert (i, j * 3 + 2) D))) m'"
    using g by (intro put_gray_filled [OF m i j new]) simp_all
  then show ?thesis using g by simp
qed

lemma grayscale_serial_filled:
  assumes inb: "wf_buf inbuf w h" and outb: "wf_buf outbuf w h"
  shows "\<exists>m. grayscale_serial inbuf outbuf w h = Some m \<and>
           filled (gray_target inbuf) w h (block 0 h 0 (3 * w)) m"
  unfolding grayscale_serial_def
  by (rule pointwise_loops [where body = "\<lambda>i j m. do { y \<leftarrow> gray_at inbuf i j; put_gray m i j y }",
        OF gray_pixel_filled [OF inb] outb])

lemma blend_byte_filled:
  assumes in1: "wf_buf inbuf1 w h" and in2: "wf_buf inbuf2 w h"
    and m: "filled (blend_target inbuf1 inbuf2) w h D m"
    and i: "0 \<le> i" "i < h" and k: "0 \<le> k" "k < 3 * w"
    and new: "(i, k) \<notin> D"
  shows "\<exists>m'. blend_byte inbuf1 inbuf2 i k m = Some m' \<and>
           filled (blend_target inbuf1 inbuf2) w h (insert (i, k) D) m'"
proof -
  have l: "load inbuf1 i k = Some (byte_at inbuf1 i k)" "load inbuf2 i k = Some (byte_at inbuf2 i k)"
    using in1 in2 i k by (auto intro!: load_wf)
  have b: "blend (byte_at inbuf1 i k) (byte_at inbuf2 i k) = Some (blend_target inbuf1 inbuf2 i k)"
    by (simp add: blend_val blend_target_def)
  show ?thesis
    using filled_store [OF m i k new refl] by (simp add: blend_byte_def l b)
qed

lemma blend_pixel_filled:
  assumes in1: "wf_buf inbuf1 w h" and in2: "wf_buf inbuf2 w h"
    and i: "0 \<le> i" "i < h" and j: "0 \<le> j" "j < w"
    and m: "filled (blend_target inbuf1 inbuf2) w h D m"
    and new: "(i, j * 3) \<notin> D" "(i, j * 3 + 1) \<notin> D" "(i, j * 3 + 2) \<notin> D"
  shows "\<exists>m'. blend_pixel inbuf1 inbuf2 i j m = Some m' \<and>
           filled (blend_target inbuf1 inbuf2) w h
             (insert (i, j * 3) (insert (i, j * 3 + 1) (insert (i, j * 3 + 2) D))) m'"
proof -
  obtain m1 where m1: "blend_byte inbuf1 inbuf2 i (j * 3) m = Some m1"
      "filled (blend_target inbuf1 inbuf2) w h (insert (i, j * 3) D) m1"
    using blend_byte_filled [OF in1 in2 m i _ _ new(1)] j by auto
  obtain m2 where m2: "blend_byte inbuf1 inbuf2 i (j * 3 + 1) m1 = Some m2"
      "filled (blend_target inbuf1 inbuf2) w h (insert (i, j * 3 + 1) (insert (i, j * 3) D)) m2"
    using blend_byte_filled [OF in1 in2 m1(2) i, of "j * 3 + 1"] j new(2) by auto
  obtain m3 where m3: "blend_byte inbuf1 inbuf2 i (j * 3 + 2) m2 = Some m3"
      "filled (blend_target inbuf1 inbuf2) w h
         (insert (i, j * 3 + 2) (insert (i, j * 3 + 1) (insert (i, j * 3) D))) m3"
    using blend_byte_filled [OF in1 in2 m2(2) i, of "j * 3 + 2"] j new(3) by auto
  have "insert (i, j * 3 + 2) (insert (i, j * 3 + 1) (insert (i, j * 3) D))
      = insert (i, j * 3) (insert (i, j * 3 + 1) (insert (i, j * 3 + 2) D))"
    by auto
  with m3(2) show ?thesis by (simp add: blend_pixel_def m1 m2 m3(1))
qed

lemma alphablend_serial_filled:
  assumes in1: "wf_buf inbuf1 w h" and in2: "wf_buf inbuf2 w h" and outb: "wf_buf outbuf w h"
  shows "\<exists>m. alphablend_serial inbuf1 inbuf2 outbuf w h = Some m \<and>
           filled (blend_target inbuf1 inbuf2) w h (block 0 h 0 (3 * w)) m"
  unfolding alphablend_serial_def
  by (rule pointwise_loops [where body = "\<lambda>i j m. blend_pixel inbuf1 inbuf2 i j m",
        OF blend_pixel_filled [OF in1 in2] outb])

lemma luma_spec_div: "luma_spec r g b = (299 * uint r + 587 * uint g + 114 * uint b) div 1000"
proof -
  have "(299 / 1000 * of_int (uint r) + 587 / 1000 * of_int (uint g) + 114 / 1000 * of_int (uint b) :: rat)
      = of_int (299 * uint r + 587 * uint g + 114 * uint b) / of_int 1000"
    by simp
  then show ?thesis
    unfolding luma_spec_def by (simp only: floor_divide_of_int_eq)
qed

lemma blend_spec_div: "blend_spec a b = (uint a + uint b) div 2"
proof -
  have "(1 / 2 * of_int (uint a) + 1 / 2 * of_int (uint b) :: rat)
      = of_int (uint a + uint b) / of_int 2"
    by simp
  then show ?thesis
    unfolding blend_spec_def by (simp only: floor_divide_of_int_eq)
qed

lemma uint_byte: "0 \<le> uint (v :: JSAMPLE)" "uint (v :: JSAMPLE) \<le> 255"
proof -
  have "uint v < 2 ^ 8" using uint_bounded [of v] by simp
  then show "uint v \<le> 255" by simp
qed simp

lemma uint_blend_target:
  "uint (blend_target inbuf1 inbuf2 i k) = blend_spec (byte_at inbuf1 i k) (byte_at inbuf2 i k)"
proof -
  have "0 \<le> (uint (byte_at inbuf1 i k) + uint (byte_at inbuf2 i k)) div 2"
    "(uint (byte_at inbuf1 i k) + uint (byte_at inbuf2 i k)) div 2 \<le> 255"
    using uint_byte [of "byte_at inbuf1 i k"] uint_byte [of "byte_at inbuf2 i k"] by linarith+
  then show ?thesis
    by (simp add: blend_target_def blend_spec_div uint_word_of_int take_bit_eq_mod)
qed

lemma luma_pixel:
  "\<exists>y. luma r g b = Some y \<and> luma_spec r g b - 1 \<le> uint y \<and> uint y \<le> luma_spec r g b \<and>
       (\<not> 1000 dvd 299 * uint r + 587 * uint g + 114 * uint b \<longrightarrow> uint y = luma_spec r g b)"
  using luma_bounds [of r g b] unfolding luma_spec_div by blast

lemma grayscale_serial_pixels:
  assumes inb: "wf_buf inbuf w h" and outb: "wf_buf outbuf w h"
  shows "\<exists>m. grayscale_serial inbuf outbuf w h = Some m \<and> wf_buf (rows m) w h \<and>
           (\<forall>i j. 0 \<le> i \<and> i < h \<and> 0 \<le> j \<and> j < w \<longrightarrow>
              (case pixel inbuf i j of (r, g, b) \<Rightarrow>
                 \<exists>y. luma r g b = Some y \<and> pixel (rows m) i j = (y, y, y)))"
proof -
  obtain m where m: "grayscale_serial inbuf outbuf w h = Some m"
      "filled (gray_target inbuf) w h (block 0 h 0 (3 * w)) m"
    using grayscale_serial_filled [OF inb outb] by blast
  have px: "\<exists>y. luma (byte_at inbuf i (j * 3)) (byte_at inbuf i (j * 3 + 1)) (byte_at inbuf i (j * 3 + 2)) = Some y \<and>
        pixel (rows m) i j = (y, y, y)"
    if ij: "0 \<le> i" "i < h" "0 \<le> j" "j < w" for i j
  proof -
    note g = gray_at_target [OF inb ij]
    have b: "byte_at (rows m) i (j * 3 + c) = gray_target inbuf i (j * 3 + c)"
      if "c = 0 \<or> c = 1 \<or> c = 2" for c
      using that ij by (intro filled_byte [OF m(2)]) auto
    have "pixel (rows m) i j = (gray_target inbuf i (j * 3), gray_target inbuf i (j * 3), gray_target inbuf i (j * 3))"
      using b [of 0] b [of 1] b [of 2] g by (simp add: pixel_def)
    moreover have "luma (byte_at inbuf i (j * 3)) (byte_at inbuf i (j * 3 + 1)) (byte_at inbuf i (j * 3 + 2))
        = Some (gray_target inbuf i (j * 3))"
      using g unfolding gray_at_wf [OF inb ij] by simp
    ultimately show ?thesis by blast
  qed
  have "wf_buf (rows m) w h" using m(2) by (simp add: filled_def)
  with m(1) px show ?thesis by (auto simp: pixel_def)
qed

lemma alphablend_serial_bytes:
  assumes in1: "wf_buf inbuf1 w h" and in2: "wf_buf inbuf2 w h" and outb: "wf_buf outbuf w h"
  shows "\<exists>m. alphablend_serial inbuf1 inbuf2 outbuf w h = Some m \<and> wf_buf (rows m) w h \<and>
           (\<forall>i k. 0 \<le> i \<and> i < h \<and> 0 \<le> k \<and> k < 3 * w \<longrightarrow>
              byte_at (rows m) i k = blend_target inbuf1 inbuf2 i k)"
proof -
  obtain m where m: "alphablend_serial inbuf1 inbuf2 outbuf w h = Some m"
      "filled (blend_target inbuf1 inbuf2) w h (block 0 h 0 (3 * w)) m"
    using alphablend_serial_filled [OF in1 in2 outb] by blast
  have "wf_buf (rows m) w h" using m(2) by (simp add: filled_def)
  with m(1) filled_byte [OF m(2)] show ?thesis by blast
qed

lemma blend_target_same: "blend_target a a i k = byte_at a i k"
proof -
  have "(uint (byte_at a i k) + uint (byte_at a i k)) div 2 = uint (byte_at a i k)" by simp
  then show ?thesis by (simp add: blend_target_def)
qed

lemma alphablend_serial_self:
  assumes a: "wf_buf a w h" and outb: "wf_buf outbuf w h"
  shows "\<exists>m. alphablend_serial a a outbuf w h = Some m \<and> rows m = a"
proof -
  obtain m where m: "alphablend_serial a a outbuf w h = Some m" "wf_buf (rows m) w h"
      "\<forall>i k. 0 \<le> i \<and> i < h \<and> 0 \<le> k \<and> k < 3 * w \<longrightarrow> byte_at (rows m) i k = blend_target a a i k"
    using alphablend_serial_bytes [OF a a outb] by blast
  have "rows m = a"
  proof (rule wf_buf_eqI [OF m(2) a])
    fix i j assume ij: "0 \<le> i" "i < h" "0 \<le> j" "j < w"
    have "byte_at (rows m) i (j * 3 + c) = byte_at a i (j * 3 + c)" if "c = 0 \<or> c = 1 \<or> c = 2" for c
    proof -
      have "byte_at (rows m) i (j * 3 + c) = blend_target a a i (j * 3 + c)"
        using that ij by (intro m(3) [rule_format]) auto
      then show ?thesis by (simp add: blend_target_same)
    qed
    from this [of 0] this [of 1] this [of 2]
    show "pixel (rows m) i j = pixel a i j" by (simp add: pixel_def)
  qed
  with m(1) show ?thesis by blast
qed

lemma luma_red: "luma 255 0 0 = Some 76"
  by code_simp

lemma red_4x2:
  assumes "0 \<le> i \<and> i < 2 \<and> 0 \<le> j \<and> j < 4"
  shows "pixel [[255, 0, 0, 255, 0, 0, 255, 0, 0, 255, 0, 0],
                [255, 0, 0, 255, 0, 0, 255, 0, 0, 255, 0, 0]] i j = (255, 0, 0)"
proof -
  have "i = 0 \<or> i = 1" "j = 0 \<or> j = 1 \<or> j = 2 \<or> j = 3" using assms by auto
  then show ?thesis by (auto simp: pixel_def byte_at_def)
qed

section \<open>The unrolled kernels on the sizes they cover\<close>

text \<open>
  Where the width is a multiple of 4 (grayscale) or the height is even (transpose) the
  unrolled loops stay inside the buffers and leave the bytes the sequential loops leave.
\<close>

lemma filled_rows_eq:
  assumes a: "filled T w h (block 0 h 0 (3 * w)) m" and b: "filled T w h (block 0 h 0 (3 * w)) m'"
  shows "rows m = rows m'"
proof (rule wf_buf_eqI [where w = w and h = h])
  show "wf_buf (rows m) w h" using a by (simp add: filled_def)
  show "wf_buf (rows m') w h" using b by (simp add: filled_def)
  fix i j assume ij: "0 \<le> i" "i < h" "0 \<le> j" "j < w"
  have "byte_at (rows m) i (j * 3 + c) = byte_at (rows m') i (j * 3 + c)"
    if "c = 0 \<or> c = 1 \<or> c = 2" for c
  proof -
    have "byte_at (rows m) i (j * 3 + c) = T i (j * 3 + c)"
      using that ij by (intro filled_byte [OF a]) auto
    moreover have "byte_at (rows m') i (j * 3 + c) = T i (j * 3 + c)"
      using that ij by (intro filled_byte [OF b]) auto
    ultimately show ?thesis by simp
  qed
  from this [of 0] this [of 1] this [of 2]
  show "pixel (rows m) i j = pixel (rows m') i j" by (simp add: pixel_def)
qed

lemma put_gray_target:
  assumes inb: "wf_buf inbuf w h"
    and i: "0 \<le> i" "i < h" and j: "0 \<le> j" "j < w"
    and m: "filled (gray_target inbuf) w h D m"
    and new: "(i, j * 3) \<notin> D" "(i, j * 3 + 1) \<notin> D" "(i, j * 3 + 2) \<notin> D"
  shows "\<exists>m'. put_gray m i j (gray_target inbuf i (j * 3)) = Some m' \<and>
           filled (gray_target inbuf) w h
             (insert (i, j * 3) (insert (i, j * 3 + 1) (insert (i, j * 3 + 2) D))) m'"
  using gray_at_target [OF inb i j] by (intro put_gray_filled [OF m i j new]) simp_all

lemma put_gray_next:
  assumes inb: "wf_buf inbuf w h"
    and i: "0 \<le> i" "i < h" and j: "0 \<le> j" "j < w"
    and m: "filled (gray_target inbuf) w h (block 0 i 0 (3 * w) \<union> block i (i + 1) 0 (3 * j)) m"
  shows "\<exists>m'. put_gray m i j (gray_target inbuf i (j * 3)) = Some m' \<and>
           filled (gray_target inbuf) w h
             (block 0 i 0 (3 * w) \<union> block i (i + 1) 0 (3 * (j + 1))) m'"
proof -
  let ?D = "block 0 i 0 (3 * w) \<union> block i (i + 1) 0 (3 * j)"
  have new: "(i, j * 3) \<notin> ?D" "(i, j * 3 + 1) \<notin> ?D" "(i, j * 3 + 2) \<notin> ?D"
    by (auto simp: block_def)
  have eq: "insert (i, j * 3) (insert (i, j * 3 + 1) (insert (i, j * 3 + 2) ?D))
        = block 0 i 0 (3 * w) \<union> block i (i + 1) 0 (3 * (j + 1))"
    using j i by (auto simp: block_def)
  show ?thesis
    using put_gray_target [OF inb i j m new] unfolding eq .
qed

lemma grayscale_parallel_row:
  assumes inb: "wf_buf inbuf w h"
    and m: "filled (gray_target inbuf) w h (block 0 i 0 (3 * w)) m"
    and i: "0 \<le> i" "i < h" and w4: "4 dvd w"
  shows "\<exists>m'. for_loop 0 w 4 (\<lambda>j m. do {
         y1 \<leftarrow> gray_at inbuf i j;
         y2 \<leftarrow> gray_at inbuf i (j + 1);
         y3 \<leftarrow> gray_at inbuf i (j + 2);
         y4 \<leftarrow> gray_at inbuf i (j + 3);
         m \<leftarrow> put_gray m i j y1;
         m \<leftarrow> put_gray m i (j + 1) y2;
         m \<leftarrow> put_gray m i (j + 2) y3;
         put_gray m i (j + 3) y4
       }) m = Some m' \<and> filled (gray_target inbuf) w h (block 0 (i + 1) 0 (3 * w)) m'"
    (is "\<exists>m'. for_loop 0 w 4 ?body m = Some m' \<and> _")
proof -
  define I where "I j m \<longleftrightarrow>
      filled (gray_target inbuf) w h (block 0 i 0 (3 * w) \<union> block i (i + 1) 0 (3 * j)) m" for j m
  have w: "0 \<le> w" using inb by (simp add: wf_buf_def)
  have "block 0 i 0 (3 * w) \<union> block i (i + 1) 0 (3 * 0) = block 0 i 0 (3 * w)"
    by (auto simp: block_def)
  then have start: "I 0 m" using m by (simp add: I_def)
  have step: "\<exists>t'. ?body j t = Some t' \<and> I (j + 4) t'"
    if j: "0 \<le> j" "j < w" "4 dvd w - j" "I j t" for j t
  proof -
    have j3: "j + 3 < w" using j(2,3) by presburger
    have g0: "gray_at inbuf i j = Some (gray_target inbuf i (j * 3))"
      using gray_at_target [OF inb i, of j] j(1) j3 by simp
    have g1: "gray_at inbuf i (j + 1) = Some (gray_target inbuf i ((j + 1) * 3))"
      using gray_at_target [OF inb i, of "j + 1"] j(1) j3 by simp
    have g2: "gray_at inbuf i (j + 2) = Some (gray_target inbuf i ((j + 2) * 3))"
      using gray_at_target [OF inb i, of "j + 2"] j(1) j3 by simp
    have g3: "gray_at inbuf i (j + 3) = Some (gray_target inbuf i ((j + 3) * 3))"
      using gray_at_target [OF inb i, of "j + 3"] j(1) j3 by simp
    obtain m1 where m1: "put_gray t i j (gray_target inbuf i (j * 3)) = Some m1" "I (j + 1) m1"
      using put_gray_next [OF inb i, of j t] j(1,4) j3 unfolding I_def by auto
    obtain m2 where m2: "put_gray m1 i (j + 1) (gray_target inbuf i ((j + 1) * 3)) = Some m2"
        "I (j + 1 + 1) m2"
      using put_gray_next [OF inb i, of "j + 1" m1] m1(2) j(1) j3 unfolding I_def by auto
    have m2': "I (j + 2) m2" using m2(2) by (simp add: add.assoc)
    obtain m3 where m3: "put_gray m2 i (j + 2) (gray_target inbuf i ((j + 2) * 3)) = Some m3"
        "I (j + 2 + 1) m3"
      using put_gray_next [OF inb i, of "j + 2" m2] m2' j(1) j3 unfolding I_def by auto
    have m3': "I (j + 3) m3" using m3(2) by (simp add: add.assoc)
    obtain m4 where m4: "put_gray m3 i (j + 3) (gray_target inbuf i ((j + 3) * 3)) = Some m4"
        "I (j + 3 + 1) m4"
      using put_gray_next [OF inb i, of "j + 3" m3] m3' j(1) j3 unfolding I_def by auto
    have "I (j + 4) m4" using m4(2) by (simp add: add.assoc)
    moreover have "?body j t = Some m4"
      unfolding g0 g1 g2 g3 using m1(1) m2(1) m3(1) m4(1) by simp
    ultimately show ?thesis by blast
  qed
  have "\<exists>t. for_loop 0 w 4 ?body m = Some t \<and> I w t"
    by (rule for_loop_rule [where I = I, OF _ w _ start]) (use step w4 in auto)
  moreover have "block 0 i 0 (3 * w) \<union> block i (i + 1) 0 (3 * w) = block 0 (i + 1) 0 (3 * w)"
    using i by (auto simp: block_def)
  ultimately show ?thesis by (simp add: I_def)
qed

lemma grayscale_parallel_filled:
  assumes inb: "wf_buf inbuf w h" and outb: "wf_buf outbuf w h" and w4: "4 dvd w"
  shows "\<exists>m. grayscale_parallel inbuf outbuf w h = Some m \<and>
           filled (gray_target inbuf) w h (block 0 h 0 (3 * w)) m"
proof -
  define I where "I i m \<longleftrightarrow> filled (gray_target inbuf) w h (block 0 i 0 (3 * w)) m" for i m
  have h: "0 \<le> h" using outb by (simp add: wf_buf_def)
  have "block 0 0 0 (3 * w) = block 0 0 0 0" by (auto simp: block_def)
  then have start: "I 0 \<lparr>rows = outbuf, writes = []\<rparr>"
    unfolding I_def using filled_init [OF outb, of "gray_target inbuf" 0 0] by simp
  show ?thesis
    unfolding grayscale_parallel_def I_def [symmetric]
  proof (rule for_loop_rule [where I = I, OF _ h _ start])
    fix i t assume "0 \<le> i" "i < h" "I i t"
    then show "\<exists>t'. for_loop 0 w 4 (\<lambda>j m. do {
         y1 \<leftarrow> gray_at inbuf i j;
         y2 \<leftarrow> gray_at inbuf i (j + 1);
         y3 \<leftarrow> gray_at inbuf i (j + 2);
         y4 \<leftarrow> gray_at inbuf i (j + 3);
         m \<leftarrow> put_gray m i j y1;
         m \<leftarrow> put_gray m i (j + 1) y2;
         m \<leftarrow> put_gray m i (j + 2) y3;
         put_gray m i (j + 3) y4
       }) t = Some t' \<and> I (i + 1) t'"
      unfolding I_def using grayscale_parallel_row [OF inb _ _ _ w4] by blast
  qed simp_all
qed

lemma grayscale_parallel_multiple_of_4:
  assumes "wf_buf inbuf w h" "wf_buf outbuf w h" "4 dvd w"
  shows "\<exists>m m'. grayscale_parallel inbuf outbuf w h = Some m \<and>
           grayscale_serial inbuf outbuf w h = Some m' \<and> rows m = rows m'"
  using grayscale_parallel_filled [OF assms] grayscale_serial_filled [OF assms(1,2)]
    filled_rows_eq by blast

lemma transpose_parallel_rows:
  assumes inb: "wf_buf inbuf w h"
    and m: "filled (transposed inbuf w) h w (block 0 w 0 (3 * i)) m"
    and i: "0 \<le> i" "i + 1 < h"
  shows "\<exists>m'. for_loop 0 w 1 (\<lambda>j m. do {
         m \<leftarrow> move_pixel inbuf w i j m;
         move_pixel inbuf w (i + 1) j m
       }) m = Some m' \<and> filled (transposed inbuf w) h w (block 0 w 0 (3 * (i + 2))) m'"
    (is "\<exists>m'. for_loop 0 w 1 ?body m = Some m' \<and> _")
proof -
  define I where "I j m \<longleftrightarrow>
      filled (transposed inbuf w) h w (block 0 w 0 (3 * i) \<union> block (w - j) w (3 * i) (3 * i + 6)) m" for j m
  have w: "0 \<le> w" using inb by (simp add: wf_buf_def)
  have "block 0 w 0 (3 * i) \<union> block (w - 0) w (3 * i) (3 * i + 6) = block 0 w 0 (3 * i)"
    by (auto simp: block_def)
  then have start: "I 0 m" using m by (simp add: I_def)
  have step: "\<exists>t'. ?body j t = Some t' \<and> I (j + 1) t'" if j: "0 \<le> j" "j < w" "I j t" for j t
  proof -
    let ?D = "block 0 w 0 (3 * i) \<union> block (w - j) w (3 * i) (3 * i + 6)"
    let ?D1 = "?D \<union> block (w - 1 - j) (w - j) (3 * i) (3 * i + 3)"
    have i0: "0 \<le> i" "i < h" and i1: "0 \<le> i + 1" "i + 1 < h" using i by simp_all
    have t: "filled (transposed inbuf w) h w ?D t" using j(3) by (simp add: I_def)
    have new0: "(w - 1 - j, i * 3) \<notin> ?D" "(w - 1 - j, i * 3 + 1) \<notin> ?D" "(w - 1 - j, i * 3 + 2) \<notin> ?D"
      by (auto simp: block_def)
    have eq0: "insert (w - 1 - j, i * 3 + 2) (insert (w - 1 - j, i * 3 + 1) (insert (w - 1 - j, i * 3) ?D)) = ?D1"
      using j(1,2) i by (auto simp: block_def)
    obtain m1 where m1: "move_pixel inbuf w i j t = Some m1" "filled (transposed inbuf w) h w ?D1 m1"
      using move_pixel_filled [OF inb t i0 j(1,2) new0] unfolding eq0 by blast
    have new1: "(w - 1 - j, (i + 1) * 3) \<notin> ?D1" "(w - 1 - j, (i + 1) * 3 + 1) \<notin> ?D1"
        "(w - 1 - j, (i + 1) * 3 + 2) \<notin> ?D1"
      by (auto simp: block_def)
    have eq1: "insert (w - 1 - j, (i + 1) * 3 + 2) (insert (w - 1 - j, (i + 1) * 3 + 1)
          (insert (w - 1 - j, (i + 1) * 3) ?D1))
        = block 0 w 0 (3 * i) \<union> block (w - (j + 1)) w (3 * i) (3 * i + 6)"
      using j(1,2) i by (auto simp: block_def)
    obtain m2 where m2: "move_pixel inbuf w (i + 1) j m1 = Some m2" "I (j + 1) m2"
      using move_pixel_filled [OF inb m1(2) i1 j(1,2) new1] unfolding eq1 I_def by blast
    have "?body j t = Some m2" using m1(1) m2(1) by simp
    with m2(2) show ?thesis by blast
  qed
  have "\<exists>t. for_loop 0 w 1 ?body m = Some t \<and> I w t"
    by (rule for_loop_rule [where I = I, OF _ w _ start]) (use step in auto)
  moreover have "block 0 w 0 (3 * i) \<union> block (w - w) w (3 * i) (3 * i + 6) = block 0 w 0 (3 * (i + 2))"
    using i by (auto simp: block_def)
  ultimately show ?thesis by (simp add: I_def)
qed

lemma transpose_parallel_filled:
  assumes inb: "wf_buf inbuf w h" and outb: "wf_buf outbuf h w" and h2: "2 dvd h"
  shows "\<exists>m. transpose_parallel inbuf outbuf w h = Some m \<and>
           filled (transposed inbuf w) h w (block 0 w 0 (3 * h)) m"
proof -
  define I where "I i m \<longleftrightarrow> filled (transposed inbuf w) h w (block 0 w 0 (3 * i)) m" for i m
  have h: "0 \<le> h" using inb by (simp add: wf_buf_def)
  have start: "I 0 \<lparr>rows = outbuf, writes = []\<rparr>"
    unfolding I_def using filled_init [OF outb] by simp
  show ?thesis
    unfolding transpose_parallel_def I_def [symmetric]
  proof (rule for_loop_rule [where I = I, OF _ h _ start])
    fix i t assume a: "0 \<le> i" "i < h" "2 dvd h - i" "I i t"
    have "i + 1 < h" using a(2,3) by presburger
    then show "\<exists>t'. for_loop 0 w 1 (\<lambda>j m. do {
         m \<leftarrow> move_pixel inbuf w i j m;
         move_pixel inbuf w (i + 1) j m
       }) t = Some t' \<and> I (i + 2) t'"
      unfolding I_def using transpose_parallel_rows [OF inb _ a(1)] a(4) [unfolded I_def] by blast
  qed (use h2 in simp_all)
qed

lemma transpose_parallel_even_height:
  assumes "wf_buf inbuf w h" "wf_buf outbuf h w" "2 dvd h"
  shows "\<exists>m m'. transpose_parallel inbuf outbuf w h = Some m \<and>
           transpose_serial inbuf outbuf w h = Some m' \<and> rows m = rows m'"
proof -
  obtain m where m: "transpose_parallel inbuf outbuf w h = Some m"
      "filled (transposed inbuf w) h w (block 0 w 0 (3 * h)) m"
    using transpose_parallel_filled [OF assms] by blast
  obtain m' where m': "transpose_serial inbuf outbuf w h = Some m'"
      "filled (transposed inbuf w) h w (block 0 w 0 (3 * h)) m'"
    using transpose_serial_filled [OF assms(1,2)] by blast
  have "rows m = rows m'" using m(2) m'(2) by (rule filled_rows_eq)
  with m(1) m'(1) show ?thesis by blast
qed

section \<open>The unrolled kernels on the sizes they do not cover\<close>

text \<open>
  Where the width is not a multiple of 4 (grayscale) or the height is odd (transpose), the
  last unrolled iteration leaves the buffers: the kernel has no defined result.
\<close>

lemma for_loop_None:
  assumes "0 < step" "i < n" "I i s"
    and "\<And>k t. i \<le> k \<Longrightarrow> k < n \<Longrightarrow> I k t \<Longrightarrow>
           body k t = None \<or> (k + step < n \<and> (\<exists>t'. body k t = Some t' \<and> I (k + step) t'))"
  shows "for_loop i n step body s = None"
  using assms(2-)
proof (induction "nat (n - i)" arbitrary: i s rule: less_induct)
  case less
  show ?case
  proof (cases "body i s")
    case None
    then show ?thesis using less.prems(1) assms(1) by (subst for_loop.simps) simp
  next
    case (Some t')
    then have nx: "i + step < n" "I (i + step) t'"
      using less.prems(3) [OF _ less.prems(1,2)] by auto
    have "for_loop (i + step) n step body t' = None"
    proof (rule less.hyps [OF _ nx])
      show "nat (n - (i + step)) < nat (n - i)" using less.prems(1) assms(1) by simp
      show "body k t = None \<or> (k + step < n \<and> (\<exists>t'. body k t = Some t' \<and> I (k + step) t'))"
        if "i + step \<le> k" "k < n" "I k t" for k t
        using less.prems(3) [of k t] that assms(1) by simp
    qed
    then show ?thesis using less.prems(1) assms(1) Some by (subst for_loop.simps) simp
  qed
qed

lemma load_outside:
  assumes "wf_buf b w h" "0 \<le> i" "i < h" "3 * w \<le> k"
  shows "load b i k = None"
proof -
  have "nat i < length b" using assms by (simp add: wf_buf_def nat_less_iff)
  then have "b ! nat i \<in> set b" by simp
  then have "int (length (b ! nat i)) = 3 * w"
    using assms(1) by (simp add: wf_buf_def list_all_iff)
  then show ?thesis using assms(4) by (simp add: load_def in_bounds_def)
qed

lemma load_no_row:
  assumes "wf_buf b w h" "h \<le> i"
  shows "load b i k = None"
  using assms by (simp add: load_def in_bounds_def wf_buf_def)

lemma gray_at_outside:
  assumes "wf_buf inbuf w h" "0 \<le> i" "i < h" "w \<le> j"
  shows "gray_at inbuf i j = None"
proof -
  have "load inbuf i (j * 3) = None"
    using assms by (intro load_outside [OF assms(1-3)]) simp
  then show ?thesis by (simp add: gray_at_def)
qed

lemma grayscale_parallel_row_None:
  assumes inb: "wf_buf inbuf w h"
    and m: "filled (gray_target inbuf) w h (block 0 i 0 (3 * w)) m"
    and i: "0 \<le> i" "i < h" and w4: "\<not> 4 dvd w" and w0: "0 < w"
  shows "for_loop 0 w 4 (\<lambda>j m. do {
         y1 \<leftarrow> gray_at inbuf i j;
         y2 \<leftarrow> gray_at inbuf i (j + 1);
         y3 \<leftarrow> gray_at inbuf i (j + 2);
         y4 \<leftarrow> gray_at inbuf i (j + 3);
         m \<leftarrow> put_gray m i j y1;
         m \<leftarrow> put_gray m i (j + 1) y2;
         m \<leftarrow> put_gray m i (j + 2) y3;
         put_gray m i (j + 3) y4
       }) m = None"
    (is "for_loop 0 w 4 ?body m = None")
proof -
  define I where "I j m \<longleftrightarrow> 4 dvd j \<and>
      filled (gray_target inbuf) w h (block 0 i 0 (3 * w) \<union> block i (i + 1) 0 (3 * j)) m" for j m
  have "block 0 i 0 (3 * w) \<union> block i (i + 1) 0 (3 * 0) = block 0 i 0 (3 * w)"
    by (auto simp: block_def)
  then have start: "I 0 m" using m by (simp add: I_def)
  have step: "?body j t = None \<or> (j + 4 < w \<and> (\<exists>t'. ?body j t = Some t' \<and> I (j + 4) t'))"
    if j: "0 \<le> j" "j < w" "I j t" for j t
  proof (cases "j + 3 < w")
    case False
    have "gray_at inbuf i (j + 3) = None"
      using False by (intro gray_at_outside [OF inb i]) simp
    then have "?body j t = None"
      by (cases "gray_at inbuf i j"; cases "gray_at inbuf i (j + 1)"; cases "gray_at inbuf i (j + 2)")
        simp_all
    then show ?thesis by simp
  next
    case j3: True
    have d: "4 dvd j" using j(3) by (simp add: I_def)
    have lt: "j + 4 < w" using j3 d w4 by presburger
    have g0: "gray_at inbuf i j = Some (gray_target inbuf i (j * 3))"
      using gray_at_target [OF inb i, of j] j(1) j3 by simp
    have g1: "gray_at inbuf i (j + 1) = Some (gray_target inbuf i ((j + 1) * 3))"
      using gray_at_target [OF inb i, of "j + 1"] j(1) j3 by simp
    have g2: "gray_at inbuf i (j + 2) = Some (gray_target inbuf i ((j + 2) * 3))"
      using gray_at_target [OF inb i, of "j + 2"] j(1) j3 by simp
    have g3: "gray_at inbuf i (j + 3) = Some (gray_target inbuf i ((j + 3) * 3))"
      using gray_at_target [OF inb i, of "j + 3"] j(1) j3 by simp
    let ?F = "\<lambda>j m. filled (gray_target inbuf) w h (block 0 i 0 (3 * w) \<union> block i (i + 1) 0 (3 * j)) m"
    have t: "?F j t" using j(3) by (simp add: I_def)
    obtain m1 where m1: "put_gray t i j (gray_target inbuf i (j * 3)) = Some m1" "?F (j + 1) m1"
      using put_gray_next [OF inb i, of j t] j(1) t j3 by auto
    obtain m2 where m2: "put_gray m1 i (j + 1) (gray_target inbuf i ((j + 1) * 3)) = Some m2"
        "?F (j + 1 + 1) m2"
      using put_gray_next [OF inb i, of "j + 1" m1] m1(2) j(1) j3 by auto
    have m2': "?F (j + 2) m2" using m2(2) by (simp add: add.assoc)
    obtain m3 where m3: "put_gray m2 i (j + 2) (gray_target inbuf i ((j + 2) * 3)) = Some m3"
        "?F (j + 2 + 1) m3"
      using put_gray_next [OF inb i, of "j + 2" m2] m2' j(1) j3 by auto
    have m3': "?F (j + 3) m3" using m3(2) by (simp add: add.assoc)
    obtain m4 where m4: "put_gray m3 i (j + 3) (gray_target inbuf i ((j + 3) * 3)) = Some m4"
        "?F (j + 3 + 1) m4"
      using put_gray_next [OF inb i, of "j + 3" m3] m3' j(1) j3 by auto
    have "I (j + 4) m4" using m4(2) d by (simp add: add.assoc I_def)
    moreover have "?body j t = Some m4"
      unfolding g0 g1 g2 g3 using m1(1) m2(1) m3(1) m4(1) by simp
    ultimately show ?thesis using lt by blast
  qed
  show ?thesis
    by (rule for_loop_None [where I = I, OF _ w0 start]) (use step in auto)
qed

lemma grayscale_parallel_None:
  assumes inb: "wf_buf inbuf w h" and outb: "wf_buf outbuf w h"
    and w4: "\<not> 4 dvd w" and wh: "0 < w" "0 < h"
  shows "grayscale_parallel inbuf outbuf w h = None"
proof -
  have "block 0 0 0 (3 * w) = block 0 0 0 0" by (auto simp: block_def)
  then have start: "filled (gray_target inbuf) w h (block 0 0 0 (3 * w)) \<lparr>rows = outbuf, writes = []\<rparr>"
    using filled_init [OF outb, of "gray_target inbuf" 0 0] by simp
  note row = grayscale_parallel_row_None [OF inb start _ wh(2) w4 wh(1)]
  show ?thesis
    unfolding grayscale_parallel_def using wh(2) row by (subst for_loop.simps) simp
qed

lemma move_pixel_no_row:
  assumes "wf_buf inbuf w h" "h \<le> i"
  shows "move_pixel inbuf w i j m = None"
  using load_no_row [OF assms] by (simp add: move_pixel_def)

lemma transpose_parallel_last_row_None:
  assumes inb: "wf_buf inbuf w h"
    and m: "filled (transposed inbuf w) h w (block 0 w 0 (3 * i)) m"
    and i: "0 \<le> i" "i + 1 = h" and w0: "0 < w"
  shows "for_loop 0 w 1 (\<lambda>j m. do {
         m \<leftarrow> move_pixel inbuf w i j m;
         move_pixel inbuf w (i + 1) j m
       }) m = None"
proof -
  have "move_pixel inbuf w (i + 1) 0 t = None" for t
    using i by (intro move_pixel_no_row [OF inb]) simp
  then have "do { m \<leftarrow> move_pixel inbuf w i 0 m; move_pixel inbuf w (i + 1) 0 m } = None"
    by (cases "move_pixel inbuf w i 0 m") simp_all
  then show ?thesis using w0 by (subst for_loop.simps) simp
qed

lemma transpose_parallel_None:
  assumes inb: "wf_buf inbuf w h" and outb: "wf_buf outbuf h w"
    and h2: "\<not> 2 dvd h" and wh: "0 < w" "0 < h"
  shows "transpose_parallel inbuf outbuf w h = None"
proof -
  define I where "I i m \<longleftrightarrow> 2 dvd i \<and> filled (transposed inbuf w) h w (block 0 w 0 (3 * i)) m" for i m
  let ?body = "\<lambda>i. for_loop 0 w 1 (\<lambda>j m. do {
         m \<leftarrow> move_pixel inbuf w i j m;
         move_pixel inbuf w (i + 1) j m
       })"
  have start: "I 0 \<lparr>rows = outbuf, writes = []\<rparr>"
    unfolding I_def using filled_init [OF outb] by simp
  have step: "?body i t = None \<or> (i + 2 < h \<and> (\<exists>t'. ?body i t = Some t' \<and> I (i + 2) t'))"
    if a: "0 \<le> i" "i < h" "I i t" for i t
  proof (cases "i + 1 < h")
    case True
    have t: "filled (transposed inbuf w) h w (block 0 w 0 (3 * i)) t" and d: "2 dvd i"
      using a(3) by (simp_all add: I_def)
    obtain t' where t': "?body i t = Some t'"
        "filled (transposed inbuf w) h w (block 0 w 0 (3 * (i + 2))) t'"
      using transpose_parallel_rows [OF inb t a(1) True] by blast
    have "i + 2 < h" using True d h2 by presburger
    moreover have "I (i + 2) t'" using t'(2) d by (simp add: I_def)
    ultimately show ?thesis using t'(1) by blast
  next
    case False
    then have "i + 1 = h" using a(2) by simp
    then have "?body i t = None"
      using a(3) by (intro transpose_parallel_last_row_None [OF inb _ a(1) _ wh(1)]) (simp_all add: I_def)
    then show ?thesis by simp
  qed
  show ?thesis
    unfolding transpose_parallel_def
    by (rule for_loop_None [where I = I, OF _ wh(2) start]) (use step in auto)
qed

section \<open>Claims\<close>

text \<open>
  C1 (as stated, refuted). The claim takes \<open>y\<close> to be the floor of the exact value of
  \<open>0.299 R + 0.587 G + 0.114 B\<close>. The kernel evaluates the expression in binary64 and
  truncates: on the pixel \<open>(1, 1, 1)\<close> the three rounded constants add up to just below
  \<open>1\<close>, and the output pixel is \<open>(0, 0, 0)\<close>, not \<open>(1, 1, 1)\<close>.
\<close>

theorem grayscale_exact_floor_counterexample:
  "grayscale_serial [[1, 1, 1]] [[9, 9, 9]] 1 1 =
     Some \<lparr>rows = [[0, 0, 0]], writes = [(0, 2), (0, 1), (0, 0)]\<rparr> \<and>
   luma_spec 1 1 1 = 1 \<and> luma 1 1 1 = Some 0"
  by code_simp

text \<open>
  C1 (amended). For well-formed \<open>W x H\<close> buffers the sequential grayscale kernel returns a
  buffer of the same shape in which the pixel at every (row, col) is \<open>(y, y, y)\<close>, where
  \<open>y\<close> is the \<open>unsigned char\<close> truncation of the binary64 value of
  \<open>0.299*R + 0.587*G + 0.114*B\<close> at the input pixel. That \<open>y\<close> is the exact floor or one
  less, and it is the exact floor whenever \<open>299 R + 587 G + 114 B\<close> is not a multiple
  of 1000. A pixel \<open>(255, 0, 0)\<close> becomes \<open>(76, 76, 76)\<close>, so a 4x2 buffer of such pixels
  becomes \<open>(76, 76, 76)\<close> throughout.
\<close>

theorem grayscale_serial_luma:
  assumes inb: "wf_buf inbuf w h" and outb: "wf_buf outbuf w h"
  shows "\<exists>m. grayscale_serial inbuf outbuf w h = Some m \<and> wf_buf (rows m) w h \<and>
           (\<forall>i j. 0 \<le> i \<and> i < h \<and> 0 \<le> j \<and> j < w \<longrightarrow>
              (case pixel inbuf i j of (r, g, b) \<Rightarrow>
                 \<exists>y. luma r g b = Some y \<and> pixel (rows m) i j = (y, y, y) \<and>
                     luma_spec r g b - 1 \<le> uint y \<and> uint y \<le> luma_spec r g b \<and>
                     (\<not> 1000 dvd 299 * uint r + 587 * uint g + 114 * uint b \<longrightarrow>
                        uint y = luma_spec r g b) \<and>
                     ((r, g, b) = (255, 0, 0) \<longrightarrow> y = 76)))"
proof -
  obtain m where m: "grayscale_serial inbuf outbuf w h = Some m" "wf_buf (rows m) w h"
      "\<forall>i j. 0 \<le> i \<and> i < h \<and> 0 \<le> j \<and> j < w \<longrightarrow>
              (case pixel inbuf i j of (r, g, b) \<Rightarrow>
                 \<exists>y. luma r g b = Some y \<and> pixel (rows m) i j = (y, y, y))"
    using grayscale_serial_pixels [OF inb outb] by blast
  have "case pixel inbuf i j of (r, g, b) \<Rightarrow>
                 \<exists>y. luma r g b = Some y \<and> pixel (rows m) i j = (y, y, y) \<and>
                     luma_spec r g b - 1 \<le> uint y \<and> uint y \<le> luma_spec r g b \<and>
                     (\<not> 1000 dvd 299 * uint r + 587 * uint g + 114 * uint b \<longrightarrow>
                        uint y = luma_spec r g b) \<and>
                     ((r, g, b) = (255, 0, 0) \<longrightarrow> y = 76)"
    if ij: "0 \<le> i \<and> i < h \<and> 0 \<le> j \<and> j < w" for i j
  proof -
    obtain r g b where p: "pixel inbuf i j = (r, g, b)" by (cases "pixel inbuf i j") auto
    obtain y where y: "luma r g b = Some y" "pixel (rows m) i j = (y, y, y)"
      using m(3) [rule_format, OF ij] p by auto
    have "luma_spec r g b - 1 \<le> uint y \<and> uint y \<le> luma_spec r g b \<and>
        (\<not> 1000 dvd 299 * uint r + 587 * uint g + 114 * uint b \<longrightarrow> uint y = luma_spec r g b)"
      using luma_pixel [of r g b] y(1) by auto
    moreover have "(r, g, b) = (255, 0, 0) \<longrightarrow> y = 76"
      using y(1) luma_red by auto
    ultimately show ?thesis using p y by simp
  qed
  with m(1,2) show ?thesis by blast
qed

theorem grayscale_serial_luma_witness:
  "\<exists>m. grayscale_serial
          [[255, 0, 0, 255, 0, 0, 255, 0, 0, 255, 0, 0], [255, 0, 0, 255, 0, 0, 255, 0, 0, 255, 0, 0]]
          [[1, 2, 3, 4, 5, 6, 7, 8, 9, 10, 11, 12], [1, 2, 3, 4, 5, 6, 7, 8, 9, 10, 11, 12]] 4 2 = Some m \<and>
        wf_buf (rows m) 4 2 \<and>
        (\<forall>i j. 0 \<le> i \<and> i < 2 \<and> 0 \<le> j \<and> j < 4 \<longrightarrow> pixel (rows m) i j = (76, 76, 76))"
proof -
  let ?red = "[[255, 0, 0, 255, 0, 0, 255, 0, 0, 255, 0, 0], [255, 0, 0, 255, 0, 0, 255, 0, 0, 255, 0, 0 :: JSAMPLE]]"
  let ?out = "[[1, 2, 3, 4, 5, 6, 7, 8, 9, 10, 11, 12], [1, 2, 3, 4, 5, 6, 7, 8, 9, 10, 11, 12 :: JSAMPLE]]"
  have a: "wf_buf ?red 4 2" by (simp add: wf_buf_def)
  have b: "wf_buf ?out 4 2" by (simp add: wf_buf_def)
  obtain m where m: "grayscale_serial ?red ?out 4 2 = Some m" "wf_buf (rows m) 4 2"
     "\<forall>i j. 0 \<le> i \<and> i < 2 \<and> 0 \<le> j \<and> j < 4 \<longrightarrow>
              (case pixel ?red i j of (r, g, b) \<Rightarrow>
                 \<exists>y. luma r g b = Some y \<and> pixel (rows m) i j = (y, y, y) \<and>
                     luma_spec r g b - 1 \<le> uint y \<and> uint y \<le> luma_spec r g b \<and>
                     (\<not> 1000 dvd 299 * uint r + 587 * uint g + 114 * uint b \<longrightarrow>
                        uint y = luma_spec r g b) \<and>
                     ((r, g, b) = (255, 0, 0) \<longrightarrow> y = 76))"
    using grayscale_serial_luma [OF a b] by blast
  have "pixel (rows m) i j = (76, 76, 76)" if ij: "0 \<le> i \<and> i < 2 \<and> 0 \<le> j \<and> j < 4" for i j
    using m(3) [rule_format, OF ij] red_4x2 [OF ij] by auto
  with m(1,2) show ?thesis by blast
qed

text \<open>
  C2. Run on a well-formed image of width \<open>W\<close> and height \<open>H\<close> (a 1x1 or 1xN image
  included), the sequential transpose program hands \<open>write_jpg\<close> an image of width \<open>H\<close>
  and height \<open>W\<close> whose pixel \<open>(W - 1 - j, i)\<close> is the input pixel \<open>(i, j)\<close>, for every
  \<open>0 \<le> i < H\<close> and \<open>0 \<le> j < W\<close>.
\<close>

theorem transpose_dimensions_and_mapping:
  assumes "wf_image img" "malloc_ok e" "\<not> openmp e"
  shows "\<exists>out. main_transpose e 3 img = Written out \<and>
           width out = height img \<and> height out = width img \<and> wf_image out \<and>
           (\<forall>i j. 0 \<le> i \<and> i < height img \<and> 0 \<le> j \<and> j < width img \<longrightarrow>
              pixel (buf out) (width img - 1 - j) i = pixel (buf img) i j)"
  using assms by (rule main_transpose_serial)

theorem transpose_dimensions_and_mapping_witness:
  "wf_image \<lparr>width = 1, height = 2, buf = [[1, 2, 3], [4, 5, 6]]\<rparr> \<and>
   malloc_ok \<lparr>openmp = False, malloc_ok = True, uninit = (\<lambda>i k. 0)\<rparr> \<and>
   \<not> openmp \<lparr>openmp = False, malloc_ok = True, uninit = (\<lambda>i k. 0)\<rparr> \<and>
   (\<exists>out. main_transpose \<lparr>openmp = False, malloc_ok = True, uninit = (\<lambda>i k. 0)\<rparr> 3
             \<lparr>width = 1, height = 2, buf = [[1, 2, 3], [4, 5, 6]]\<rparr> = Written out \<and>
      width out = 2 \<and> height out = 1 \<and> wf_image out \<and>
      (\<forall>i j. 0 \<le> i \<and> i < 2 \<and> 0 \<le> j \<and> j < 1 \<longrightarrow>
         pixel (buf out) (1 - 1 - j) i = pixel [[1, 2, 3], [4, 5, 6]] i j))"
proof -
  have a: "wf_image \<lparr>width = 1, height = 2, buf = [[1, 2, 3], [4, 5, 6]]\<rparr>"
    by (simp add: wf_image_def wf_buf_def)
  have b: "malloc_ok \<lparr>openmp = False, malloc_ok = True, uninit = (\<lambda>i k. 0)\<rparr>"
    by simp
  have c: "\<not> openmp \<lparr>openmp = False, malloc_ok = True, uninit = (\<lambda>i k. 0)\<rparr>"
    by simp
  show ?thesis
    using transpose_dimensions_and_mapping [OF a b c] a by simp
qed

text \<open>
  C3. For well-formed inputs of equal dimensions the sequential alpha blend kernel returns
  a buffer of the same shape in which every channel of every pixel is
  \<open>floor(0.5 in1 + 0.5 in2)\<close> of the two input channels (the binary64 evaluation is exact
  here); where the first input has \<open>(255, 0, 0)\<close> and the second \<open>(0, 0, 255)\<close> the
  output pixel is \<open>(127, 0, 127)\<close>.
\<close>

theorem alphablend_serial_floor_half:
  assumes in1: "wf_buf inbuf1 w h" and in2: "wf_buf inbuf2 w h" and outb: "wf_buf outbuf w h"
  shows "\<exists>m. alphablend_serial inbuf1 inbuf2 outbuf w h = Some m \<and> wf_buf (rows m) w h \<and>
           (\<forall>i k. 0 \<le> i \<and> i < h \<and> 0 \<le> k \<and> k < 3 * w \<longrightarrow>
              uint (byte_at (rows m) i k) = blend_spec (byte_at inbuf1 i k) (byte_at inbuf2 i k)) \<and>
           (\<forall>i j. 0 \<le> i \<and> i < h \<and> 0 \<le> j \<and> j < w \<and>
                  pixel inbuf1 i j = (255, 0, 0) \<and> pixel inbuf2 i j = (0, 0, 255) \<longrightarrow>
              pixel (rows m) i j = (127, 0, 127))"
proof -
  obtain m where m: "alphablend_serial inbuf1 inbuf2 outbuf w h = Some m" "wf_buf (rows m) w h"
      "\<forall>i k. 0 \<le> i \<and> i < h \<and> 0 \<le> k \<and> k < 3 * w \<longrightarrow>
         byte_at (rows m) i k = blend_target inbuf1 inbuf2 i k"
    using alphablend_serial_bytes [OF in1 in2 outb] by blast
  have ch: "\<forall>i k. 0 \<le> i \<and> i < h \<and> 0 \<le> k \<and> k < 3 * w \<longrightarrow>
      uint (byte_at (rows m) i k) = blend_spec (byte_at inbuf1 i k) (byte_at inbuf2 i k)"
    using m(3) by (simp add: uint_blend_target)
  have ex: "pixel (rows m) i j = (127, 0, 127)"
    if ij: "0 \<le> i \<and> i < h \<and> 0 \<le> j \<and> j < w"
      and p: "pixel inbuf1 i j = (255, 0, 0)" "pixel inbuf2 i j = (0, 0, 255)" for i j
  proof -
    have b: "byte_at (rows m) i (j * 3 + c) = blend_target inbuf1 inbuf2 i (j * 3 + c)"
      if "c = 0 \<or> c = 1 \<or> c = 2" for c
      using that ij by (intro m(3) [rule_format]) auto
    show ?thesis
      using b [of 0] b [of 1] b [of 2] p by (simp add: pixel_def blend_target_def)
  qed
  from m(1,2) ch ex show ?thesis by blast
qed

theorem alphablend_serial_floor_half_witness:
  "\<exists>m. alphablend_serial [[255, 0, 0, 255, 0, 0]] [[0, 0, 255, 0, 0, 255]] [[1, 2, 3, 4, 5, 6]] 2 1
          = Some m \<and>
        pixel (rows m) 0 0 = (127, 0, 127) \<and> pixel (rows m) 0 1 = (127, 0, 127)"
proof -
  let ?a = "[[255, 0, 0, 255, 0, 0 :: JSAMPLE]]"
  let ?b = "[[0, 0, 255, 0, 0, 255 :: JSAMPLE]]"
  let ?c = "[[1, 2, 3, 4, 5, 6 :: JSAMPLE]]"
  have a: "wf_buf ?a 2 1" and b: "wf_buf ?b 2 1" and c: "wf_buf ?c 2 1"
    by (simp_all add: wf_buf_def)
  obtain m where m: "alphablend_serial ?a ?b ?c 2 1 = Some m"
      "\<forall>i j. 0 \<le> i \<and> i < 1 \<and> 0 \<le> j \<and> j < 2 \<and>
                  pixel ?a i j = (255, 0, 0) \<and> pixel ?b i j = (0, 0, 255) \<longrightarrow>
              pixel (rows m) i j = (127, 0, 127)"
    using alphablend_serial_floor_half [OF a b c] by blast
  have "pixel (rows m) 0 0 = (127, 0, 127)"
    by (rule m(2) [rule_format]) (simp add: pixel_def byte_at_def)
  moreover have "pixel (rows m) 0 1 = (127, 0, 127)"
    by (rule m(2) [rule_format]) (simp add: pixel_def byte_at_def)
  ultimately show ?thesis using m(1) by blast
qed

text \<open>
  C4 (failing input). On a 1x1 image the OpenMP build of the grayscale program has no
  defined behaviour: \<open>grayscale_parallel\<close> handles columns 0 to 3 in its only iteration
  and leaves the three-byte rows. The sequential build writes \<open>(18, 18, 18)\<close>.
\<close>

theorem grayscale_parallel_width_1:
  "grayscale_parallel [[10, 20, 30]] [[0, 0, 0]] 1 1 = None \<and>
   grayscale_serial [[10, 20, 30]] [[0, 0, 0]] 1 1 =
     Some \<lparr>rows = [[18, 18, 18]], writes = [(0, 2), (0, 1), (0, 0)]\<rparr> \<and>
   main_grayscale \<lparr>openmp = True, malloc_ok = True, uninit = (\<lambda>i k. 0)\<rparr> 3
     \<lparr>width = 1, height = 1, buf = [[10, 20, 30]]\<rparr> = Undefined_Behaviour \<and>
   main_grayscale \<lparr>openmp = False, malloc_ok = True, uninit = (\<lambda>i k. 0)\<rparr> 3
     \<lparr>width = 1, height = 1, buf = [[10, 20, 30]]\<rparr>
     = Written \<lparr>width = 1, height = 1, buf = [[18, 18, 18]]\<rparr>"
  by code_simp

text \<open>
  C5 (failing input). On a 1x1 image the OpenMP build of the transpose program has no
  defined behaviour: \<open>transpose_parallel\<close> moves rows 0 and 1 in its only iteration, and
  the image has no row 1. The sequential build writes the pixel unchanged.
\<close>

theorem transpose_parallel_height_1:
  "transpose_parallel [[10, 20, 30]] [[0, 0, 0]] 1 1 = None \<and>
   transpose_serial [[10, 20, 30]] [[0, 0, 0]] 1 1 =
     Some \<lparr>rows = [[10, 20, 30]], writes = [(0, 0), (0, 1), (0, 2)]\<rparr> \<and>
   main_transpose \<lparr>openmp = True, malloc_ok = True, uninit = (\<lambda>i k. 0)\<rparr> 3
     \<lparr>width = 1, height = 1, buf = [[10, 20, 30]]\<rparr> = Undefined_Behaviour \<and>
   main_transpose \<lparr>openmp = False, malloc_ok = True, uninit = (\<lambda>i k. 0)\<rparr> 3
     \<lparr>width = 1, height = 1, buf = [[10, 20, 30]]\<rparr>
     = Written \<lparr>width = 1, height = 1, buf = [[10, 20, 30]]\<rparr>"
  by code_simp

text \<open>
  C6. The map \<open>(i, j) \<mapsto> (W - 1 - j, i)\<close> is a bijection from the \<open>H x W\<close> input grid
  onto the \<open>W x H\<close> output grid, and the sequential transpose kernel writes every byte of
  every destination pixel exactly once: its record of writes has \<open>3 * W * H\<close> entries and
  holds each of the three byte addresses of each destination pixel once.
\<close>

theorem transpose_writes_each_pixel_once:
  assumes "wf_buf inbuf w h" "wf_buf outbuf h w"
  shows "bij_betw (\<lambda>(i, j). (w - 1 - j, i)) ({0..<h} \<times> {0..<w}) ({0..<w} \<times> {0..<h}) \<and>
     (\<exists>m. transpose_serial inbuf outbuf w h = Some m \<and>
       length (writes m) = nat (3 * w * h) \<and>
       (\<forall>r c ch. 0 \<le> r \<and> r < w \<and> 0 \<le> c \<and> c < h \<and> 0 \<le> ch \<and> ch < 3 \<longrightarrow>
          count_list (writes m) (r, c * 3 + ch) = 1))"
  using transpose_destination_bij [of w h] transpose_serial_once [OF assms] by blast

theorem transpose_writes_each_pixel_once_witness:
  "\<exists>m. transpose_serial [[1, 2, 3, 4, 5, 6]] [[0, 0, 0], [0, 0, 0]] 2 1 = Some m \<and>
     length (writes m) = 6 \<and> count_list (writes m) (1, 0 * 3 + 2) = 1"
proof -
  have a: "wf_buf [[1, 2, 3, 4, 5, 6]] 2 1" by (simp add: wf_buf_def)
  have b: "wf_buf [[0, 0, 0], [0, 0, 0]] 1 2" by (simp add: wf_buf_def)
  obtain m where m: "transpose_serial [[1, 2, 3, 4, 5, 6]] [[0, 0, 0], [0, 0, 0]] 2 1 = Some m"
      "length (writes m) = nat (3 * 2 * 1)"
      "\<forall>r c ch. 0 \<le> r \<and> r < 2 \<and> 0 \<le> c \<and> c < 1 \<and> 0 \<le> ch \<and> ch < 3 \<longrightarrow>
          count_list (writes m) (r, c * 3 + ch) = 1"
    using transpose_writes_each_pixel_once [OF a b] by blast
  have "count_list (writes m) (1, 0 * 3 + 2) = 1"
    by (rule m(3) [rule_format]) simp
  with m(1,2) show ?thesis by simp
qed

text \<open>
  C7. Fed its own output again (the images passed through the codec unchanged), the
  sequential transpose program gives back an image of the original width and height
  after two runs and the original image, pixel for pixel, after four.
\<close>

theorem transpose_four_times_identity:
  assumes "wf_image img"
    and "malloc_ok e1" "\<not> openmp e1" "malloc_ok e2" "\<not> openmp e2"
    and "malloc_ok e3" "\<not> openmp e3" "malloc_ok e4" "\<not> openmp e4"
  shows "\<exists>a b c d. main_transpose e1 3 img = Written a \<and> main_transpose e2 3 a = Written b \<and>
           main_transpose e3 3 b = Written c \<and> main_transpose e4 3 c = Written d \<and>
           width b = width img \<and> height b = height img \<and> d = img"
  using assms by (rule main_transpose_four)

theorem transpose_four_times_identity_witness:
  "\<exists>a b c d.
     main_transpose \<lparr>openmp = False, malloc_ok = True, uninit = (\<lambda>i k. 0)\<rparr> 3
       \<lparr>width = 2, height = 3,
        buf = [[1, 2, 3, 4, 5, 6], [7, 8, 9, 10, 11, 12], [13, 14, 15, 16, 17, 18]]\<rparr> = Written a \<and>
     main_transpose \<lparr>openmp = False, malloc_ok = True, uninit = (\<lambda>i k. 0)\<rparr> 3 a = Written b \<and>
     main_transpose \<lparr>openmp = False, malloc_ok = True, uninit = (\<lambda>i k. 0)\<rparr> 3 b = Written c \<and>
     main_transpose \<lparr>openmp = False, malloc_ok = True, uninit = (\<lambda>i k. 0)\<rparr> 3 c = Written d \<and>
     width b = 2 \<and> height b = 3 \<and>
     d = \<lparr>width = 2, height = 3,
          buf = [[1, 2, 3, 4, 5, 6], [7, 8, 9, 10, 11, 12], [13, 14, 15, 16, 17, 18]]\<rparr>"
proof -
  have a: "wf_image \<lparr>width = 2, height = 3,
        buf = [[1, 2, 3, 4, 5, 6], [7, 8, 9, 10, 11, 12], [13, 14, 15, 16, 17, 18]]\<rparr>"
    by (simp add: wf_image_def wf_buf_def)
  have b: "malloc_ok \<lparr>openmp = False, malloc_ok = True, uninit = (\<lambda>i k. 0)\<rparr>"
    by simp
  have c: "\<not> openmp \<lparr>openmp = False, malloc_ok = True, uninit = (\<lambda>i k. 0)\<rparr>"
    by simp
  show ?thesis
    using transpose_four_times_identity [OF a b c b c b c b c] by simp
qed

text \<open>
  C8. Blending a well-formed buffer with itself gives that buffer back: \<open>blend(A, A) = A\<close>.
\<close>

theorem alphablend_self_identity:
  assumes "wf_buf a w h" "wf_buf outbuf w h"
  shows "\<exists>m. alphablend_serial a a outbuf w h = Some m \<and> rows m = a"
  using assms by (rule alphablend_serial_self)

theorem alphablend_self_identity_witness:
  "\<exists>m. alphablend_serial [[1, 128, 255], [7, 0, 254]] [[1, 128, 255], [7, 0, 254]]
          [[0, 0, 0], [0, 0, 0]] 1 2 = Some m \<and>
        rows m = [[1, 128, 255], [7, 0, 254]]"
proof -
  have a: "wf_buf [[1, 128, 255], [7, 0, 254]] 1 2" by (simp add: wf_buf_def)
  have b: "wf_buf [[0, 0, 0], [0, 0, 0]] 1 2" by (simp add: wf_buf_def)
  show ?thesis by (rule alphablend_self_identity [OF a b])
qed

text \<open>
  C9. When the two decoded inputs differ in width or in height, the alpha blend program
  prints its error message and exits with the failure status, which is not zero; it does
  so before the output is allocated and before either kernel runs, whatever the buffers
  hold, so that nothing is handed to \<open>write_jpg\<close>.
\<close>

theorem alphablend_dimension_mismatch:
  assumes "width in_img1 \<noteq> width in_img2 \<or> height in_img1 \<noteq> height in_img2"
  shows "main_alphablend e 4 in_img1 in_img2 = Exit_Failure DimensionMismatchError \<and>
         (\<exists>st. exit_status (main_alphablend e 4 in_img1 in_img2) = Some st \<and> st \<noteq> 0) \<and>
         (\<forall>out. main_alphablend e 4 in_img1 in_img2 \<noteq> Written out)"
  using assms by (auto simp: main_alphablend_def Let_def EXIT_FAILURE_def)

theorem alphablend_dimension_mismatch_witness:
  "main_alphablend \<lparr>openmp = False, malloc_ok = True, uninit = (\<lambda>i k. 0)\<rparr> 4
     \<lparr>width = 10, height = 10, buf = replicate 10 (replicate 30 0)\<rparr>
     \<lparr>width = 10, height = 11, buf = replicate 11 (replicate 30 0)\<rparr>
     = Exit_Failure DimensionMismatchError \<and>
   height \<lparr>width = 10, height = 10, buf = replicate 10 (replicate 30 (0 :: JSAMPLE))\<rparr>
     \<noteq> height \<lparr>width = 10, height = 11, buf = replicate 11 (replicate 30 (0 :: JSAMPLE))\<rparr>"
proof -
  have a: "width \<lparr>width = 10, height = 10, buf = replicate 10 (replicate 30 (0 :: JSAMPLE))\<rparr>
      \<noteq> width \<lparr>width = 10, height = 11, buf = replicate 11 (replicate 30 (0 :: JSAMPLE))\<rparr> \<or>
    height \<lparr>width = 10, height = 10, buf = replicate 10 (replicate 30 (0 :: JSAMPLE))\<rparr>
      \<noteq> height \<lparr>width = 10, height = 11, buf = replicate 11 (replicate 30 (0 :: JSAMPLE))\<rparr>"
    by simp
  show ?thesis
    using alphablend_dimension_mismatch
      [OF a, where e = "\<lparr>openmp = False, malloc_ok = True, uninit = (\<lambda>i k. 0)\<rparr>"]
    by simp
qed

text \<open>
  C10. Every channel of every output pixel of the alpha blend kernel lies between the
  smaller and the larger of the two input channel values, both included.
\<close>

theorem alphablend_between_inputs:
  assumes in1: "wf_buf inbuf1 w h" and in2: "wf_buf inbuf2 w h" and outb: "wf_buf outbuf w h"
  shows "\<exists>m. alphablend_serial inbuf1 inbuf2 outbuf w h = Some m \<and>
           (\<forall>i k. 0 \<le> i \<and> i < h \<and> 0 \<le> k \<and> k < 3 * w \<longrightarrow>
              min (uint (byte_at inbuf1 i k)) (uint (byte_at inbuf2 i k)) \<le> uint (byte_at (rows m) i k) \<and>
              uint (byte_at (rows m) i k) \<le> max (uint (byte_at inbuf1 i k)) (uint (byte_at inbuf2 i k)))"
proof -
  obtain m where m: "alphablend_serial inbuf1 inbuf2 outbuf w h = Some m"
      "\<forall>i k. 0 \<le> i \<and> i < h \<and> 0 \<le> k \<and> k < 3 * w \<longrightarrow>
         byte_at (rows m) i k = blend_target inbuf1 inbuf2 i k"
    using alphablend_serial_bytes [OF in1 in2 outb] by blast
  have "min (uint (byte_at inbuf1 i k)) (uint (byte_at inbuf2 i k)) \<le> uint (byte_at (rows m) i k) \<and>
        uint (byte_at (rows m) i k) \<le> max (uint (byte_at inbuf1 i k)) (uint (byte_at inbuf2 i k))"
    if ik: "0 \<le> i \<and> i < h \<and> 0 \<le> k \<and> k < 3 * w" for i k
  proof -
    have "uint (byte_at (rows m) i k) = (uint (byte_at inbuf1 i k) + uint (byte_at inbuf2 i k)) div 2"
      using m(2) [rule_format, OF ik] by (simp only: uint_blend_target blend_spec_div)
    then show ?thesis by linarith
  qed
  with m(1) show ?thesis by blast
qed

theorem alphablend_between_inputs_witness:
  "\<exists>m. alphablend_serial [[10, 200, 255]] [[21, 100, 0]] [[0, 0, 0]] 1 1 = Some m \<and>
        10 \<le> uint (byte_at (rows m) 0 0) \<and> uint (byte_at (rows m) 0 0) \<le> 21 \<and>
        0 \<le> uint (byte_at (rows m) 0 2) \<and> uint (byte_at (rows m) 0 2) \<le> 255"
proof -
  let ?a = "[[10, 200, 255 :: JSAMPLE]]"
  let ?b = "[[21, 100, 0 :: JSAMPLE]]"
  have a: "wf_buf ?a 1 1" and b: "wf_buf ?b 1 1" and c: "wf_buf [[0, 0, 0]] 1 1"
    by (simp_all add: wf_buf_def)
  obtain m where m: "alphablend_serial ?a ?b [[0, 0, 0]] 1 1 = Some m"
      "\<forall>i k. 0 \<le> i \<and> i < 1 \<and> 0 \<le> k \<and> k < 3 * 1 \<longrightarrow>
              min (uint (byte_at ?a i k)) (uint (byte_at ?b i k)) \<le> uint (byte_at (rows m) i k) \<and>
              uint (byte_at (rows m) i k) \<le> max (uint (byte_at ?a i k)) (uint (byte_at ?b i k))"
    using alphablend_between_inputs [OF a b c] by blast
  from m(2) [rule_format, of 0 0] m(2) [rule_format, of 0 2] m(1)
  show ?thesis by (auto simp: byte_at_def)
qed

end
